theory Spec2Isabelle
  imports Main
begin

section \<open>The gateway client of stark-frontend (src/lib/gateway-client.ts)\<close>

text \<open>
  The class \<open>GatewayClient\<close> is embedded as a record of its fields together with the
  part of the JavaScript runtime its methods touch: the WebSocket objects it created,
  the timers it set, a virtual clock, and the trace of everything its code does to the
  outside (callbacks invoked, promises settled, frames sent, console output).
  Every method and every event handler is a function from state to state.  The model
  is single threaded like the source: a function runs one handler to its end (or to
  its \<open>await\<close>).

  Callbacks are opaque: a callback is a number (its identity in a \<open>Set\<close>), calling
  it is recorded in the trace, and it does not call back into the client.  An exception
  thrown by a callback is caught by the source on every path; the console line that the
  catch prints is not part of the trace.
\<close>

subsection \<open>JavaScript values\<close>

text \<open>
  The values that reach this code: the results of \<open>JSON.parse\<close> (the first seven forms,
  a number standing for its double), \<open>undefined\<close>, the \<open>Error\<close> objects the client
  builds (\<open>JError v\<close> is \<open>new Error(v)\<close>), and the event object that the browser hands
  to \<open>onerror\<close>.  An object lists its own properties in insertion order.
\<close>

datatype jsvalue =
    JUndefined
  | JNull
  | JBool bool
  | JNum int
  | JStr string
  | JArr "jsvalue list"
  | JObj "(string \<times> jsvalue) list"
  | JError jsvalue
  | JDomEvent

text \<open>A function that can throw returns \<open>Inl v\<close> for the thrown value \<open>v\<close>.\<close>

definition TypeError :: jsvalue where
  "TypeError = JError (JStr ''TypeError'')"

definition InvalidStateError :: jsvalue where
  "InvalidStateError = JError (JStr ''InvalidStateError'')"

text \<open>Truthiness, as \<open>if (v)\<close>, \<open>v && w\<close> and \<open>v || w\<close> test it.\<close>

fun truthy :: "jsvalue \<Rightarrow> bool" where
  "truthy JUndefined = False"
| "truthy JNull = False"
| "truthy (JBool b) = b"
| "truthy (JNum n) = (n \<noteq> 0)"
| "truthy (JStr s) = (s \<noteq> [])"
| "truthy (JArr xs) = True"
| "truthy (JObj kvs) = True"
| "truthy (JError v) = True"
| "truthy JDomEvent = True"

text \<open>
  Property read \<open>v.k\<close>.  On \<open>null\<close> and \<open>undefined\<close> it throws a TypeError; on an
  object it is the own property or \<open>undefined\<close>; on a primitive or an array it is
  \<open>undefined\<close> for every name this code reads (type, event, data, id, error, result,
  message, authenticated), none of which is inherited.  The code reads properties only
  of values that come out of \<open>JSON.parse\<close>.
\<close>

fun get_prop :: "jsvalue \<Rightarrow> string \<Rightarrow> jsvalue + jsvalue" where
  "get_prop JUndefined k = Inl TypeError"
| "get_prop JNull k = Inl TypeError"
| "get_prop (JObj kvs) k = Inr (case map_of kvs k of None \<Rightarrow> JUndefined | Some v \<Rightarrow> v)"
| "get_prop v k = Inr JUndefined"

text \<open>
  A read that cannot throw: of a value whose earlier read succeeded, or of a truthy
  value (neither is \<open>null\<close> or \<open>undefined\<close>).
\<close>

definition field :: "jsvalue \<Rightarrow> string \<Rightarrow> jsvalue" where
  "field v k = (case get_prop v k of Inr x \<Rightarrow> x | Inl e \<Rightarrow> JUndefined)"

subsection \<open>Map and Set, in insertion order\<close>

text \<open>
  A JavaScript \<open>Map\<close> is an association list with distinct keys in insertion order:
  \<open>get\<close> is \<open>map_of\<close>, \<open>set\<close> replaces the value of a key in place or appends a new
  key, \<open>delete\<close> removes the key.  A \<open>Set\<close> is a list without repetition.
\<close>

fun Map_set :: "'k \<Rightarrow> 'v \<Rightarrow> ('k \<times> 'v) list \<Rightarrow> ('k \<times> 'v) list" where
  "Map_set k v [] = [(k, v)]"
| "Map_set k v (p # ps) = (if fst p = k then (k, v) # ps else p # Map_set k v ps)"

definition Map_delete :: "'k \<Rightarrow> ('k \<times> 'v) list \<Rightarrow> ('k \<times> 'v) list" where
  "Map_delete k m = filter (\<lambda>p. fst p \<noteq> k) m"

definition Set_add :: "'a \<Rightarrow> 'a list \<Rightarrow> 'a list" where
  "Set_add x xs = (if x \<in> set xs then xs else xs @ [x])"

definition Set_delete :: "'a \<Rightarrow> 'a list \<Rightarrow> 'a list" where
  "Set_delete x xs = filter (\<lambda>y. y \<noteq> x) xs"

subsection \<open>State\<close>

datatype ready_state = CONNECTING | OPEN | CLOSING | CLOSED

text \<open>
  A WebSocket the client created: its \<open>readyState\<close>, and the \<open>reject\<close> function of the
  promise of the \<open>connect()\<close> call that created it, which its handlers close over.
  Promises, timers and sockets are numbered as they are created.
\<close>

record websocket =
  readyState :: ready_state
  connectReject :: nat

record pending_request =
  resolve :: nat
  reject :: nat
  timeout :: nat

text \<open>
  What a timer runs when it fires: the reconnect of \<open>onclose\<close>, the time limit of
  \<open>call\<close> (it closes over the request id and the \<open>reject\<close> of the call's promise), the
  time limit of \<open>authenticate\<close> (it closes over the \<open>reject\<close> of the handshake's promise).
\<close>

datatype timer_action = Reconnect | RpcTimeout string nat | AuthTimeout nat

record timer =
  handle :: nat
  due :: nat
  action :: timer_action

text \<open>
  A handshake started by \<open>authenticate\<close>, named by its promise: the request id, the
  handle of its time limit, the socket its message listener is attached to (if any),
  and whether its promise has settled.  An \<open>onopen\<close> handler suspended at its
  \<open>await\<close> is an entry of \<open>awaiting\<close>: the handshake it waits for, and the \<open>reject\<close>
  of the connect promise it closes over.
\<close>

record handshake =
  authId :: string
  authTimeout :: nat
  listeningOn :: "nat option"
  settled :: bool

datatype effect =
    Invoke nat jsvalue
  | PromiseResolve nat jsvalue
  | PromiseReject nat jsvalue
  | WsSend nat jsvalue
  | WsClose nat
  | Console string

record gateway =
  url :: string
  ws :: "nat option"
  pendingRequests :: "(string \<times> pending_request) list"
  eventListeners :: "(string \<times> nat list) list"
  wildcardListeners :: "nat list"
  reconnectAttempts :: nat
  maxReconnectAttempts :: nat
  reconnectDelay :: nat
  intentionalDisconnect :: bool
  connectionPromise :: "nat option"
  connectionResolve :: "nat option"
  authenticated :: bool
  eventBuffer :: "(jsvalue \<times> jsvalue) list"
  sockets :: "(nat \<times> websocket) list"
  handshakes :: "(nat \<times> handshake) list"
  awaiting :: "(nat \<times> nat) list"
  timers :: "timer list"
  clock :: nat
  nextHandle :: nat
  nextPromise :: nat
  nextSocket :: nat
  effects :: "effect list"

definition EVENT_RING_BUFFER_SIZE :: nat where
  "EVENT_RING_BUFFER_SIZE = 500"

text \<open>The constructor, called with a url; nothing has happened yet at time 0.\<close>

definition constructor :: "string \<Rightarrow> gateway" where
  "constructor u =
     \<lparr>url = u, ws = None, pendingRequests = [], eventListeners = [],
      wildcardListeners = [], reconnectAttempts = 0, maxReconnectAttempts = 5,
      reconnectDelay = 1000, intentionalDisconnect = False, connectionPromise = None,
      connectionResolve = None, authenticated = False, eventBuffer = [],
      sockets = [], handshakes = [], awaiting = [], timers = [], clock = 0, nextHandle = 0,
      nextPromise = 0, nextSocket = 0, effects = []\<rparr>"

subsection \<open>The runtime: trace, timers, promises, sockets\<close>

definition eff :: "effect \<Rightarrow> gateway \<Rightarrow> gateway" where
  "eff e s = s\<lparr>effects := effects s @ [e]\<rparr>"

definition setTimeout :: "timer_action \<Rightarrow> nat \<Rightarrow> gateway \<Rightarrow> nat \<times> gateway" where
  "setTimeout a ms s =
     (nextHandle s,
      s\<lparr>timers := timers s @ [\<lparr>handle = nextHandle s, due = clock s + ms, action = a\<rparr>],
        nextHandle := Suc (nextHandle s)\<rparr>)"

definition clearTimeout :: "nat \<Rightarrow> gateway \<Rightarrow> gateway" where
  "clearTimeout h s = s\<lparr>timers := filter (\<lambda>t. handle t \<noteq> h) (timers s)\<rparr>"

definition newPromise :: "gateway \<Rightarrow> nat \<times> gateway" where
  "newPromise s = (nextPromise s, s\<lparr>nextPromise := Suc (nextPromise s)\<rparr>)"

subsection \<open>The event dispatcher: emitEvent, on, off\<close>

definition wildcardArg :: "jsvalue \<Rightarrow> jsvalue \<Rightarrow> jsvalue" where
  "wildcardArg event data = JObj [(''event'', event), (''data'', data)]"

text \<open>\<open>this.eventListeners.get(event)\<close>: the keys are strings, so only a string finds one.\<close>

definition listenersFor :: "jsvalue \<Rightarrow> gateway \<Rightarrow> nat list option" where
  "listenersFor event s =
     (case event of JStr t \<Rightarrow> map_of (eventListeners s) t | _ \<Rightarrow> None)"

definition emitEvent :: "jsvalue \<Rightarrow> jsvalue \<Rightarrow> gateway \<Rightarrow> gateway" where
  "emitEvent event data s =
     (let s1 =
            (if event \<noteq> JStr ''connected'' \<and> event \<noteq> JStr ''disconnected''
                \<and> event \<noteq> JStr ''auth_failed'' \<and> event \<noteq> JStr ''error''
             then (let b = eventBuffer s @ [(event, data)]
                   in s\<lparr>eventBuffer :=
                          (if length b > EVENT_RING_BUFFER_SIZE then tl b else b)\<rparr>)
             else s);
          s2 = (if event \<noteq> JStr ''agent.thinking''
                then eff (Console ''[Gateway] Event received'') s1 else s1);
          s3 = (case listenersFor event s2 of
                  Some listeners \<Rightarrow>
                    fold (\<lambda>callback. eff (Invoke callback data)) listeners
                      (eff (Console ''[Gateway] Found listener(s) for event'') s2)
                | None \<Rightarrow> eff (Console ''[Gateway] No listeners for event'') s2)
      in fold (\<lambda>callback. eff (Invoke callback (wildcardArg event data)))
           (wildcardListeners s3) s3)"

definition on :: "string \<Rightarrow> nat \<Rightarrow> gateway \<Rightarrow> gateway" where
  "on event callback s =
     (if event = ''*'' then
        (let s1 = s\<lparr>wildcardListeners := Set_add callback (wildcardListeners s)\<rparr>
         in if length (eventBuffer s1) > 0
            then fold (\<lambda>entry. eff (Invoke callback (wildcardArg (fst entry) (snd entry))))
                   (eventBuffer s1) s1
            else s1)
      else
        (let s1 = (if map_of (eventListeners s) event = None
                   then s\<lparr>eventListeners := Map_set event [] (eventListeners s)\<rparr>
                   else s)
         in case map_of (eventListeners s1) event of
              Some listeners \<Rightarrow>
                s1\<lparr>eventListeners :=
                     Map_set event (Set_add callback listeners) (eventListeners s1)\<rparr>
            | None \<Rightarrow> s1))"

definition off :: "string \<Rightarrow> nat \<Rightarrow> gateway \<Rightarrow> gateway" where
  "off event callback s =
     (if event = ''*'' then
        s\<lparr>wildcardListeners := Set_delete callback (wildcardListeners s)\<rparr>
      else
        (case map_of (eventListeners s) event of
           Some listeners \<Rightarrow>
             s\<lparr>eventListeners :=
                  Map_set event (Set_delete callback listeners) (eventListeners s)\<rparr>
         | None \<Rightarrow> s))"

subsection \<open>Sockets\<close>

text \<open>
  \<open>socket.close()\<close> starts the closing handshake unless the socket is closing or closed
  already.  \<open>socket.send(frame)\<close> throws while the socket is still connecting, sends when
  it is open, and drops the frame silently otherwise.  The trace keeps the object that
  the source hands to \<open>JSON.stringify\<close>.
\<close>

definition wsClose :: "nat \<Rightarrow> gateway \<Rightarrow> gateway" where
  "wsClose k s =
     (case map_of (sockets s) k of
        None \<Rightarrow> s
      | Some w \<Rightarrow>
          eff (WsClose k)
            (if readyState w = CLOSING \<or> readyState w = CLOSED then s
             else s\<lparr>sockets := Map_set k (w\<lparr>readyState := CLOSING\<rparr>) (sockets s)\<rparr>))"

definition wsSend :: "nat \<Rightarrow> jsvalue \<Rightarrow> gateway \<Rightarrow> jsvalue + gateway" where
  "wsSend k frame s =
     (case map_of (sockets s) k of
        None \<Rightarrow> Inr s
      | Some w \<Rightarrow>
          if readyState w = CONNECTING then Inl InvalidStateError
          else if readyState w = OPEN then Inr (eff (WsSend k frame) s)
          else Inr s)"

definition isConnected :: "gateway \<Rightarrow> bool" where
  "isConnected s =
     (case ws s of
        None \<Rightarrow> False
      | Some k \<Rightarrow>
          (case map_of (sockets s) k of
             None \<Rightarrow> False
           | Some w \<Rightarrow> readyState w = OPEN \<and> authenticated s))"

subsection \<open>connect and the handlers it installs\<close>

text \<open>
  \<open>connect()\<close> returns a promise.  \<open>newWebSocket\<close> is the constructor of the platform:
  \<open>newWebSocket u = Some e\<close> when \<open>new WebSocket(u)\<close> throws \<open>e\<close>.  The catch of the source
  runs inside the executor, before the new promise is assigned to the field.
\<close>

definition connect :: "(string \<Rightarrow> jsvalue option) \<Rightarrow> gateway \<Rightarrow> nat \<times> gateway" where
  "connect newWebSocket s =
     (if isConnected s then
        (let (p, s1) = newPromise s in (p, eff (PromiseResolve p JUndefined) s1))
      else
        (case connectionPromise s of
           Some p \<Rightarrow> (p, s)
         | None \<Rightarrow>
             (let (p, s1) = newPromise s;
                  s2 = s1\<lparr>connectionResolve := Some p\<rparr>;
                  s3 = (case newWebSocket (url s2) of
                          None \<Rightarrow>
                            s2\<lparr>ws := Some (nextSocket s2),
                               sockets := sockets s2 @
                                 [(nextSocket s2,
                                   \<lparr>readyState = CONNECTING, connectReject = p\<rparr>)],
                               nextSocket := Suc (nextSocket s2)\<rparr>
                        | Some error \<Rightarrow>
                            eff (PromiseReject p error) (s2\<lparr>connectionPromise := None\<rparr>))
              in (p, s3\<lparr>connectionPromise := Some p\<rparr>))))"

text \<open>The rest of \<open>onopen\<close> after a handshake that succeeded, and its catch block.\<close>

definition onopen_resume :: "gateway \<Rightarrow> gateway" where
  "onopen_resume s =
     (let s1 = eff (Console ''[Gateway] Authenticated successfully'')
                 (s\<lparr>authenticated := True\<rparr>);
          s2 = emitEvent (JStr ''connected'') (JObj []) s1
      in case connectionResolve s2 of
           Some p \<Rightarrow> (eff (PromiseResolve p JUndefined) s2)\<lparr>connectionResolve := None\<rparr>
         | None \<Rightarrow> s2)"

definition onopen_catch :: "nat \<Rightarrow> jsvalue \<Rightarrow> gateway \<Rightarrow> gateway" where
  "onopen_catch rej authError s =
     (let s1 = eff (Console ''[Gateway] Authentication failed:'') s;
          s2 = emitEvent (JStr ''auth_failed'') (JObj [(''error'', authError)]) s1;
          s3 = (case ws s2 of Some k \<Rightarrow> wsClose k s2 | None \<Rightarrow> s2)
      in eff (PromiseReject rej authError) s3)"

text \<open>
  Settling the promise of handshake \<open>h\<close> (\<open>None\<close> is \<open>resolve()\<close>, \<open>Some e\<close> is
  \<open>reject(e)\<close>): the first settlement wakes the \<open>onopen\<close> handler that awaits it, a later
  one does nothing.  No statement follows a settlement in the source, so the handler,
  a microtask, runs next.
\<close>

definition settleAuth :: "nat \<Rightarrow> jsvalue option \<Rightarrow> gateway \<Rightarrow> gateway" where
  "settleAuth h outcome s =
     (case map_of (handshakes s) h of
        None \<Rightarrow> s
      | Some hs \<Rightarrow>
          if settled hs then s
          else
            (let s1 = s\<lparr>handshakes := Map_set h (hs\<lparr>settled := True\<rparr>) (handshakes s)\<rparr>
             in case map_of (awaiting s1) h of
                  None \<Rightarrow> s1
                | Some rej \<Rightarrow>
                    (let s2 = s1\<lparr>awaiting := Map_delete h (awaiting s1)\<rparr>
                     in case outcome of
                          None \<Rightarrow> onopen_resume s2
                        | Some e \<Rightarrow> onopen_catch rej e s2)))"

text \<open>
  \<open>authenticate()\<close>: \<open>token\<close> is what \<open>localStorage.getItem\<close> returns, \<open>rid\<close> what
  \<open>crypto.randomUUID()\<close> returns.  The result is \<open>Inl e\<close> when the promise it returns
  is rejected already, \<open>Inr h\<close> when handshake \<open>h\<close> is under way.
\<close>

definition authRequest :: "string \<Rightarrow> string \<Rightarrow> jsvalue" where
  "authRequest rid token =
     JObj [(''jsonrpc'', JStr ''2.0''), (''id'', JStr rid), (''method'', JStr ''auth''),
           (''params'', JObj [(''token'', JStr token)])]"

definition authenticate ::
  "string option \<Rightarrow> string \<Rightarrow> gateway \<Rightarrow> (jsvalue + nat) \<times> gateway" where
  "authenticate token rid s =
     (case token of
        None \<Rightarrow>
          (Inl (JError (JStr ''No auth token found. Please log in first.'')),
           eff (Console ''[Gateway] No auth token in localStorage'') s)
      | Some tok \<Rightarrow>
          if tok = [] then
            (Inl (JError (JStr ''No auth token found. Please log in first.'')),
             eff (Console ''[Gateway] No auth token in localStorage'') s)
          else
            (let s1 = eff (Console ''[Gateway] Sending auth request'') s;
                 (h, s2) = newPromise s1;
                 (t, s3) = setTimeout (AuthTimeout h) 10000 s2;
                 hs = \<lparr>authId = rid, authTimeout = t, listeningOn = ws s3, settled = False\<rparr>;
                 s4 = s3\<lparr>handshakes := handshakes s3 @ [(h, hs)]\<rparr>
             in case ws s4 of
                  None \<Rightarrow> (Inr h, s4)
                | Some k \<Rightarrow>
                    (case wsSend k (authRequest rid tok) s4 of
                       Inr s5 \<Rightarrow> (Inr h, s5)
                     | Inl e \<Rightarrow>
                         (Inl e,
                          s4\<lparr>handshakes :=
                               Map_set h (hs\<lparr>settled := True\<rparr>) (handshakes s4)\<rparr>))))"

text \<open>The \<open>onopen\<close> handler of a socket whose connect promise has the reject \<open>rej\<close>.\<close>

definition onopen :: "string option \<Rightarrow> string \<Rightarrow> nat \<Rightarrow> gateway \<Rightarrow> gateway" where
  "onopen token rid rej s =
     (let s1 = eff (Console ''[Gateway] WebSocket connected'') s;
          s2 = s1\<lparr>reconnectAttempts := 0, reconnectDelay := 1000\<rparr>;
          (r, s3) = authenticate token rid s2
      in case r of
           Inl authError \<Rightarrow> onopen_catch rej authError s3
         | Inr h \<Rightarrow> s3\<lparr>awaiting := awaiting s3 @ [(h, rej)]\<rparr>)"

definition onclose :: "gateway \<Rightarrow> gateway" where
  "onclose s =
     (let s1 = eff (Console ''[Gateway] Connection closed'') s;
          s2 = emitEvent (JStr ''disconnected'') (JObj []) (s1\<lparr>authenticated := False\<rparr>);
          s3 = s2\<lparr>connectionPromise := None\<rparr>
      in if \<not> intentionalDisconnect s3 \<and> reconnectAttempts s3 < maxReconnectAttempts s3
         then
           (let s4 = eff (Console ''[Gateway] Reconnecting'')
                       (s3\<lparr>reconnectAttempts := reconnectAttempts s3 + 1\<rparr>);
                (h, s5) = setTimeout Reconnect (reconnectDelay s4) s4
            in s5\<lparr>reconnectDelay := min (reconnectDelay s5 * 2) 30000\<rparr>)
         else s3)"

definition onerror :: "nat \<Rightarrow> gateway \<Rightarrow> gateway" where
  "onerror rej s =
     (let s1 = eff (Console ''[Gateway] WebSocket error:'') s;
          s2 = emitEvent (JStr ''error'') (JObj [(''error'', JDomEvent)]) s1
      in eff (PromiseReject rej JDomEvent) s2)"

subsection \<open>The RPC correlator: handleMessage, call\<close>

text \<open>\<open>this.pendingRequests.get(id)\<close>: the keys are strings, so only a string finds one.\<close>

definition pendingGet :: "jsvalue \<Rightarrow> gateway \<Rightarrow> (string \<times> pending_request) option" where
  "pendingGet v s =
     (case v of
        JStr k \<Rightarrow> (case map_of (pendingRequests s) k of
                     Some pending \<Rightarrow> Some (k, pending) | None \<Rightarrow> None)
      | _ \<Rightarrow> None)"

text \<open>
  \<open>handleMessage(data)\<close>.  \<open>JSON_parse\<close> is the parser of the platform, \<open>None\<close> when it
  throws a SyntaxError.  Inside the \<open>try\<close> only the first property read can throw (when
  the frame is the JSON text \<open>null\<close>), and nothing has changed by then.
\<close>

definition handleMessage ::
  "(string \<Rightarrow> jsvalue option) \<Rightarrow> string \<Rightarrow> gateway \<Rightarrow> gateway" where
  "handleMessage JSON_parse data s =
     (case JSON_parse data of
        None \<Rightarrow> eff (Console ''[Gateway] Failed to parse message:'') s
      | Some message \<Rightarrow>
          (case get_prop message ''type'' of
             Inl error \<Rightarrow> eff (Console ''[Gateway] Failed to parse message:'') s
           | Inr ty \<Rightarrow>
               if ty = JStr ''event'' \<and> truthy (field message ''event'') then
                 emitEvent (field message ''event'') (field message ''data'') s
               else if truthy (field message ''id'') then
                 (case pendingGet (field message ''id'') s of
                    None \<Rightarrow> s
                  | Some (k, pending) \<Rightarrow>
                      (let s1 = clearTimeout (timeout pending) s;
                           s2 = s1\<lparr>pendingRequests := Map_delete k (pendingRequests s1)\<rparr>
                       in if truthy (field message ''error'') then
                            eff (PromiseReject (reject pending)
                                   (JError
                                      (if truthy (field (field message ''error'') ''message'')
                                       then field (field message ''error'') ''message''
                                       else JStr ''RPC error''))) s2
                          else eff (PromiseResolve (resolve pending)
                                      (field message ''result'')) s2))
               else s))"

text \<open>
  \<open>call(method, params)\<close>, with the id \<open>rid\<close> that \<open>crypto.randomUUID()\<close> returns.  The
  result is \<open>Inl e\<close> when the function throws \<open>e\<close> (the promise of the async function is
  rejected at once), \<open>Inr p\<close> when it returns the pending promise \<open>p\<close>.
\<close>

definition rpcRequest :: "string \<Rightarrow> string \<Rightarrow> jsvalue \<Rightarrow> jsvalue" where
  "rpcRequest rid method params =
     JObj [(''id'', JStr rid), (''method'', JStr method), (''params'', params)]"

definition wsOpen :: "gateway \<Rightarrow> nat option" where
  "wsOpen s =
     (case ws s of
        None \<Rightarrow> None
      | Some k \<Rightarrow>
          (case map_of (sockets s) k of
             None \<Rightarrow> None
           | Some w \<Rightarrow> if readyState w = OPEN then Some k else None))"

definition call ::
  "string \<Rightarrow> string \<Rightarrow> jsvalue \<Rightarrow> gateway \<Rightarrow> (jsvalue + nat) \<times> gateway" where
  "call rid method params s =
     (case wsOpen s of
        None \<Rightarrow> (Inl (JError (JStr ''WebSocket not connected'')), s)
      | Some k \<Rightarrow>
          (let (p, s1) = newPromise s;
               (t, s2) = setTimeout (RpcTimeout rid p) 30000 s1;
               s3 = s2\<lparr>pendingRequests :=
                         Map_set rid \<lparr>resolve = p, reject = p, timeout = t\<rparr>
                           (pendingRequests s2)\<rparr>
           in (Inr p, eff (WsSend k (rpcRequest rid method params)) s3)))"

subsection \<open>disconnect\<close>

definition rejectPending :: "string \<times> pending_request \<Rightarrow> gateway \<Rightarrow> gateway" where
  "rejectPending entry s =
     eff (PromiseReject (reject (snd entry)) (JError (JStr ''Connection closed'')))
       (clearTimeout (timeout (snd entry)) s)"

definition disconnect :: "gateway \<Rightarrow> gateway" where
  "disconnect s =
     (let s1 = s\<lparr>intentionalDisconnect := True, authenticated := False\<rparr>;
          s2 = (case ws s1 of
                  Some k \<Rightarrow> (wsClose k s1)\<lparr>ws := None\<rparr>
                | None \<Rightarrow> s1);
          s3 = fold rejectPending (pendingRequests s2) s2
      in s3\<lparr>pendingRequests := [], connectionPromise := None, eventBuffer := []\<rparr>)"

subsection \<open>The message listener of the handshake\<close>

text \<open>
  \<open>handleAuthResponse\<close> of handshake \<open>h\<close>.  Its catch ignores every exception.
  \<open>message.result?.authenticated\<close> is \<open>undefined\<close> when the result is \<open>null\<close> or
  \<open>undefined\<close>, which is what \<open>field\<close> returns there.  The listener is removed from the
  socket that \<open>this.ws\<close> names at that moment.
\<close>

definition handleAuthResponse ::
  "(string \<Rightarrow> jsvalue option) \<Rightarrow> nat \<Rightarrow> string \<Rightarrow> gateway \<Rightarrow> gateway" where
  "handleAuthResponse JSON_parse h data s =
     (case map_of (handshakes s) h of
        None \<Rightarrow> s
      | Some hs \<Rightarrow>
          (case JSON_parse data of
             None \<Rightarrow> s
           | Some message \<Rightarrow>
               (case get_prop message ''id'' of
                  Inl error \<Rightarrow> s
                | Inr mid \<Rightarrow>
                    if mid = JStr (authId hs) then
                      (let s1 = clearTimeout (authTimeout hs) s;
                           s2 = (if ws s1 \<noteq> None \<and> listeningOn hs = ws s1
                                 then s1\<lparr>handshakes :=
                                          Map_set h (hs\<lparr>listeningOn := None\<rparr>)
                                            (handshakes s1)\<rparr>
                                 else s1)
                       in if truthy (field message ''error'') then
                            settleAuth h
                              (Some (JError
                                 (if truthy (field (field message ''error'') ''message'')
                                  then field (field message ''error'') ''message''
                                  else JStr ''Authentication failed''))) s2
                          else if truthy (field (field message ''result'') ''authenticated'')
                          then settleAuth h None s2
                          else settleAuth h
                                 (Some (JError (JStr ''Unexpected auth response''))) s2)
                    else s)))"

subsection \<open>What the browser and the clock do\<close>

text \<open>
  The browser opens socket \<open>k\<close>, delivers a text frame on it, reports an error on it, or
  closes it; each sets the socket's \<open>readyState\<close> and runs the handlers that \<open>connect\<close>
  installed.  A message is delivered only on an open socket, first to \<open>onmessage\<close>, then
  to the handshake listeners attached to that socket.
\<close>

definition ws_open :: "string option \<Rightarrow> string \<Rightarrow> nat \<Rightarrow> gateway \<Rightarrow> gateway" where
  "ws_open token rid k s =
     (case map_of (sockets s) k of
        None \<Rightarrow> s
      | Some w \<Rightarrow>
          if readyState w = CONNECTING then
            onopen token rid (connectReject w)
              (s\<lparr>sockets := Map_set k (w\<lparr>readyState := OPEN\<rparr>) (sockets s)\<rparr>)
          else s)"

definition listenersOn :: "nat \<Rightarrow> gateway \<Rightarrow> nat list" where
  "listenersOn k s = map fst (filter (\<lambda>e. listeningOn (snd e) = Some k) (handshakes s))"

definition ws_message ::
  "(string \<Rightarrow> jsvalue option) \<Rightarrow> nat \<Rightarrow> string \<Rightarrow> gateway \<Rightarrow> gateway" where
  "ws_message JSON_parse k data s =
     (case map_of (sockets s) k of
        None \<Rightarrow> s
      | Some w \<Rightarrow>
          if readyState w = OPEN then
            fold (\<lambda>h st. if h \<in> set (listenersOn k st)
                          then handleAuthResponse JSON_parse h data st else st)
              (listenersOn k s) (handleMessage JSON_parse data s)
          else s)"

definition ws_error :: "nat \<Rightarrow> gateway \<Rightarrow> gateway" where
  "ws_error k s =
     (case map_of (sockets s) k of
        None \<Rightarrow> s
      | Some w \<Rightarrow> if readyState w = CLOSED then s else onerror (connectReject w) s)"

definition ws_close :: "nat \<Rightarrow> gateway \<Rightarrow> gateway" where
  "ws_close k s =
     (case map_of (sockets s) k of
        None \<Rightarrow> s
      | Some w \<Rightarrow>
          if readyState w = CLOSED then s
          else onclose (s\<lparr>sockets := Map_set k (w\<lparr>readyState := CLOSED\<rparr>) (sockets s)\<rparr>))"

text \<open>
  A timer that has not been cleared fires once, at its due time.  Time passing by \<open>ms\<close>
  milliseconds fires the timers due by then, earliest first (timers of equal due time in
  the order they were set).  No timer of this client sets another timer when it fires,
  so the timers due are those present at the start.
\<close>

definition fire :: "(string \<Rightarrow> jsvalue option) \<Rightarrow> timer \<Rightarrow> gateway \<Rightarrow> gateway" where
  "fire newWebSocket t s =
     (if handle t \<in> handle ` set (timers s) then
        (let s1 = s\<lparr>timers := filter (\<lambda>u. handle u \<noteq> handle t) (timers s),
                     clock := max (clock s) (due t)\<rparr>
         in case action t of
              Reconnect \<Rightarrow> snd (connect newWebSocket s1)
            | RpcTimeout rid rej \<Rightarrow>
                eff (PromiseReject rej (JError (JStr ''RPC call timed out'')))
                  (s1\<lparr>pendingRequests := Map_delete rid (pendingRequests s1)\<rparr>)
            | AuthTimeout h \<Rightarrow>
                settleAuth h (Some (JError (JStr ''Authentication timed out''))) s1)
      else s)"

definition advance :: "(string \<Rightarrow> jsvalue option) \<Rightarrow> nat \<Rightarrow> gateway \<Rightarrow> gateway" where
  "advance newWebSocket ms s =
     (let target = clock s + ms;
          dueNow = sort_key due (filter (\<lambda>t. due t \<le> target) (timers s))
      in (fold (fire newWebSocket) dueNow s)\<lparr>clock := target\<rparr>)"

section \<open>Vocabulary of the properties\<close>

text \<open>
  The topics that \<open>emitEvent\<close> does not buffer, the buffer and the trace that one
  \<open>emitEvent\<close> leaves, a run of \<open>emitEvent\<close> calls, the last \<open>n\<close> elements of a list,
  the arguments a callback has been called with, and the argument of a replay.
\<close>

definition lifecycleOnly :: "jsvalue \<Rightarrow> bool" where
  "lifecycleOnly event =
     (event = JStr ''connected'' \<or> event = JStr ''disconnected''
      \<or> event = JStr ''auth_failed'' \<or> event = JStr ''error'')"

definition bufferAfter ::
  "jsvalue \<Rightarrow> jsvalue \<Rightarrow> (jsvalue \<times> jsvalue) list \<Rightarrow> (jsvalue \<times> jsvalue) list" where
  "bufferAfter event data b =
     (if lifecycleOnly event then b
      else if length b < EVENT_RING_BUFFER_SIZE then b @ [(event, data)]
      else tl (b @ [(event, data)]))"

definition emitTrace :: "jsvalue \<Rightarrow> jsvalue \<Rightarrow> gateway \<Rightarrow> effect list" where
  "emitTrace event data s =
     (if event \<noteq> JStr ''agent.thinking'' then [Console ''[Gateway] Event received''] else [])
     @ (case listenersFor event s of
          Some listeners \<Rightarrow>
            Console ''[Gateway] Found listener(s) for event''
              # map (\<lambda>callback. Invoke callback data) listeners
        | None \<Rightarrow> [Console ''[Gateway] No listeners for event''])
     @ map (\<lambda>callback. Invoke callback (wildcardArg event data)) (wildcardListeners s)"

definition emitAll :: "(jsvalue \<times> jsvalue) list \<Rightarrow> gateway \<Rightarrow> gateway" where
  "emitAll evs s = fold (\<lambda>e. emitEvent (fst e) (snd e)) evs s"

definition lastN :: "nat \<Rightarrow> 'a list \<Rightarrow> 'a list" where
  "lastN n xs = drop (length xs - n) xs"

fun received :: "nat \<Rightarrow> effect list \<Rightarrow> jsvalue list" where
  "received cb [] = []"
| "received cb (Invoke c a # es) = (if c = cb then a # received cb es else received cb es)"
| "received cb (e # es) = received cb es"

definition replayArg :: "jsvalue \<times> jsvalue \<Rightarrow> jsvalue" where
  "replayArg entry = wildcardArg (fst entry) (snd entry)"

text \<open>Inputs of the examples.\<close>

definition ticks :: "(jsvalue \<times> jsvalue) list" where
  "ticks = map (\<lambda>i. (JStr ''agent.tool_call'', JNum (int i))) [0..<501]"

definition fresh :: gateway where
  "fresh = constructor ''ws://localhost:8080/ws''"

text \<open>
  How \<open>handleMessage\<close> classifies a parsed frame: an event frame has the type
  \<open>'event'\<close> and a truthy event field; a response with id \<open>rid\<close> is any other frame
  whose id field is the non-empty string \<open>rid\<close>.  What a response does to the caller:
  \<open>settlement\<close>.
\<close>

definition isEventFrame :: "jsvalue \<Rightarrow> bool" where
  "isEventFrame message =
     (field message ''type'' = JStr ''event'' \<and> truthy (field message ''event''))"

definition isResponse :: "jsvalue \<Rightarrow> string \<Rightarrow> bool" where
  "isResponse message rid =
     (\<not> isEventFrame message \<and> field message ''id'' = JStr rid \<and> rid \<noteq> [])"

definition rpcError :: "jsvalue \<Rightarrow> jsvalue" where
  "rpcError message =
     JError (if truthy (field (field message ''error'') ''message'')
             then field (field message ''error'') ''message''
             else JStr ''RPC error'')"

definition settlement :: "jsvalue \<Rightarrow> pending_request \<Rightarrow> effect" where
  "settlement message pending =
     (if truthy (field message ''error'')
      then PromiseReject (reject pending) (rpcError message)
      else PromiseResolve (resolve pending) (field message ''result''))"

definition parseFailed :: effect where
  "parseFailed = Console ''[Gateway] Failed to parse message:''"

text \<open>The promise settlements in a trace.\<close>

definition settlements :: "effect list \<Rightarrow> effect list" where
  "settlements es =
     filter (\<lambda>e. case e of PromiseResolve p v \<Rightarrow> True | PromiseReject p v \<Rightarrow> True
                  | _ \<Rightarrow> False) es"

text \<open>
  Inputs of the examples: a WebSocket constructor that never throws, a parser that knows
  six frames, the client after \<open>connect\<close> and the opening of its socket (the handshake
  is under way), and the same with two calls in flight.
\<close>

definition noThrow :: "string \<Rightarrow> jsvalue option" where
  "noThrow u = None"

definition frames :: "(string \<times> jsvalue) list" where
  "frames =
     [(''{id: a, result: 1}'', JObj [(''id'', JStr ''a''), (''result'', JNum 1)]),
      (''{id: b, error: {message: no such token}}'',
         JObj [(''id'', JStr ''b''), (''error'', JObj [(''message'', JStr ''no such token'')])]),
      (''{type: event, event: tx.confirmed, data: 7}'',
         JObj [(''type'', JStr ''event''), (''event'', JStr ''tx.confirmed''), (''data'', JNum 7)]),
      (''{id: zzz, result: 1}'', JObj [(''id'', JStr ''zzz''), (''result'', JNum 1)]),
      (''{id: h, result: {authenticated: true}}'',
         JObj [(''id'', JStr ''h''), (''result'', JObj [(''authenticated'', JBool True)])]),
      (''null'', JNull)]"

definition parseFrames :: "string \<Rightarrow> jsvalue option" where
  "parseFrames = map_of frames"

definition opened :: gateway where
  "opened = ws_open (Some ''token'') ''h'' 0 (snd (connect noThrow fresh))"

definition twoCalls :: gateway where
  "twoCalls =
     snd (call ''b'' ''getPrice'' (JObj [(''sym'', JStr ''ETH'')])
       (snd (call ''a'' ''getBalance'' (JObj [(''addr'', JStr ''0x1'')]) opened)))"

text \<open>The trace of the second state extends the trace of the first.\<close>

definition grows :: "gateway \<Rightarrow> gateway \<Rightarrow> bool" where
  "grows s s' = (\<exists>es. effects s' = effects s @ es)"

text \<open>
  What can happen to a client: the application calls a method, the browser reports on a
  socket, or time passes.  A run is a sequence of such inputs.
\<close>

datatype input =
    AppConnect
  | AppDisconnect
  | AppCall string string jsvalue
  | AppOn string nat
  | AppOff string nat
  | SocketOpens "string option" string nat
  | SocketMessage nat string
  | SocketError nat
  | SocketCloses nat
  | TimePasses nat

fun step ::
  "(string \<Rightarrow> jsvalue option) \<Rightarrow> (string \<Rightarrow> jsvalue option) \<Rightarrow> input \<Rightarrow> gateway \<Rightarrow> gateway"
  where
  "step JSON_parse newWebSocket AppConnect s = snd (connect newWebSocket s)"
| "step JSON_parse newWebSocket AppDisconnect s = disconnect s"
| "step JSON_parse newWebSocket (AppCall rid method params) s = snd (call rid method params s)"
| "step JSON_parse newWebSocket (AppOn event callback) s = on event callback s"
| "step JSON_parse newWebSocket (AppOff event callback) s = off event callback s"
| "step JSON_parse newWebSocket (SocketOpens token rid k) s = ws_open token rid k s"
| "step JSON_parse newWebSocket (SocketMessage k data) s = ws_message JSON_parse k data s"
| "step JSON_parse newWebSocket (SocketError k) s = ws_error k s"
| "step JSON_parse newWebSocket (SocketCloses k) s = ws_close k s"
| "step JSON_parse newWebSocket (TimePasses ms) s = advance newWebSocket ms s"

definition run ::
  "(string \<Rightarrow> jsvalue option) \<Rightarrow> (string \<Rightarrow> jsvalue option) \<Rightarrow> input list \<Rightarrow> gateway
     \<Rightarrow> gateway" where
  "run JSON_parse newWebSocket inputs s = fold (step JSON_parse newWebSocket) inputs s"

text \<open>The state of the backoff: the counter, the delay and the limit.\<close>

definition backoff :: "gateway \<Rightarrow> nat \<times> nat \<times> nat" where
  "backoff s = (reconnectAttempts s, reconnectDelay s, maxReconnectAttempts s)"

text \<open>
  A connection attempt that fails in the handshake: the socket opens, the credential
  store holds no token, the client closes the socket, the browser reports the closure,
  and a second passes.  Then \<open>n\<close> such attempts in a row, each on the current socket.
\<close>

definition authFails :: "nat \<Rightarrow> gateway \<Rightarrow> gateway" where
  "authFails k s = advance noThrow 1000 (ws_close k (ws_open None [] k s))"

fun authFailures :: "nat \<Rightarrow> gateway \<Rightarrow> gateway" where
  "authFailures 0 s = s"
| "authFailures (Suc n) s =
     (case ws (authFailures n s) of
        Some k \<Rightarrow> authFails k (authFailures n s)
      | None \<Rightarrow> authFailures n s)"

text \<open>
  A connection attempt that fails before the transport opens: the browser reports the
  closure of the socket, and the current backoff delay passes.  Then \<open>n\<close> such attempts
  in a row, each on the current socket.
\<close>

definition refused :: "nat \<Rightarrow> gateway \<Rightarrow> gateway" where
  "refused k s = advance noThrow (reconnectDelay s) (ws_close k s)"

fun refusals :: "nat \<Rightarrow> gateway \<Rightarrow> gateway" where
  "refusals 0 s = s"
| "refusals (Suc n) s =
     (case ws (refusals n s) of
        Some k \<Rightarrow> refused k (refusals n s)
      | None \<Rightarrow> refusals n s)"

text \<open>The client after \<open>connect\<close>: its first socket is connecting.\<close>

definition connecting :: gateway where
  "connecting = snd (connect noThrow fresh)"

text \<open>The invariant of the backoff.\<close>

definition backoffOk :: "gateway \<Rightarrow> bool" where
  "backoffOk s =
     (maxReconnectAttempts s = 5 \<and> reconnectAttempts s \<le> 5
      \<and> reconnectDelay s = min (1000 * 2 ^ reconnectAttempts s) 30000)"

text \<open>
  A run in which the first socket is closed before it opens and a second passes.
\<close>

definition oneFailure :: "input list" where
  "oneFailure = [AppConnect, SocketCloses 0, TimePasses 1000]"

text \<open>
  The client once the handshake has succeeded, then with two calls in flight.
\<close>

definition ready :: gateway where
  "ready = ws_message parseFrames 0 ''{id: h, result: {authenticated: true}}'' opened"

definition inFlight :: gateway where
  "inFlight =
     snd (call ''b'' ''getPrice'' (JObj [(''sym'', JStr ''ETH'')])
       (snd (call ''a'' ''getBalance'' (JObj [(''addr'', JStr ''0x1'')]) ready)))"

text \<open>
  What holds of every state a run leads to: timer handles are below the next handle,
  the buffer holds at most 500 entries, and no wildcard listener is registered twice.
\<close>

definition invariant :: "gateway \<Rightarrow> bool" where
  "invariant s =
     ((\<forall>t \<in> set (timers s). handle t < nextHandle s)
      \<and> length (eventBuffer s) \<le> EVENT_RING_BUFFER_SIZE
      \<and> distinct (wildcardListeners s))"

section \<open>Properties\<close>

subsection \<open>The event dispatcher\<close>

lemma fold_eff: "fold (\<lambda>x. eff (f x)) xs s = s\<lparr>effects := effects s @ map f xs\<rparr>"
  by (induction xs arbitrary: s) (simp_all add: eff_def)

lemma listenersFor_upd [simp]:
  "listenersFor event (s\<lparr>eventBuffer := b\<rparr>) = listenersFor event s"
  "listenersFor event (s\<lparr>effects := es\<rparr>) = listenersFor event s"
  by (cases event; simp add: listenersFor_def)+

lemma emitEvent_eq:
  "emitEvent event data s =
     s\<lparr>eventBuffer := bufferAfter event data (eventBuffer s),
       effects := effects s @ emitTrace event data s\<rparr>"
proof -
  define s1 where "s1 =
    (if event \<noteq> JStr ''connected'' \<and> event \<noteq> JStr ''disconnected''
        \<and> event \<noteq> JStr ''auth_failed'' \<and> event \<noteq> JStr ''error''
     then (let b = eventBuffer s @ [(event, data)]
           in s\<lparr>eventBuffer := (if length b > EVENT_RING_BUFFER_SIZE then tl b else b)\<rparr>)
     else s)"
  define s2 where "s2 =
    (if event \<noteq> JStr ''agent.thinking''
     then eff (Console ''[Gateway] Event received'') s1 else s1)"
  define s3 where "s3 =
    (case listenersFor event s2 of
       Some listeners \<Rightarrow>
         fold (\<lambda>callback. eff (Invoke callback data)) listeners
           (eff (Console ''[Gateway] Found listener(s) for event'') s2)
     | None \<Rightarrow> eff (Console ''[Gateway] No listeners for event'') s2)"
  have e: "emitEvent event data s =
      fold (\<lambda>callback. eff (Invoke callback (wildcardArg event data))) (wildcardListeners s3) s3"
    unfolding emitEvent_def s1_def s2_def s3_def Let_def ..
  have 1: "s1 = s\<lparr>eventBuffer := bufferAfter event data (eventBuffer s)\<rparr>"
    by (simp add: s1_def bufferAfter_def lifecycleOnly_def Let_def)
  have 2: "s2 = s1\<lparr>effects := effects s1 @
      (if event \<noteq> JStr ''agent.thinking'' then [Console ''[Gateway] Event received''] else [])\<rparr>"
    by (simp add: s2_def eff_def)
  have 3: "s3 = s2\<lparr>effects := effects s2 @
      (case listenersFor event s of
          Some listeners \<Rightarrow>
            Console ''[Gateway] Found listener(s) for event''
              # map (\<lambda>callback. Invoke callback data) listeners
        | None \<Rightarrow> [Console ''[Gateway] No listeners for event''])\<rparr>"
    by (cases "listenersFor event s") (simp_all add: s3_def 1 2 fold_eff eff_def)
  show ?thesis
    unfolding e by (simp add: fold_eff 3 2 1 emitTrace_def)
qed

lemma length_bufferAfter:
  "length b \<le> EVENT_RING_BUFFER_SIZE \<Longrightarrow> length (bufferAfter event data b) \<le> EVENT_RING_BUFFER_SIZE"
  by (simp add: bufferAfter_def)

lemma bufferAfter_lastN:
  assumes "length b \<le> EVENT_RING_BUFFER_SIZE" and "\<not> lifecycleOnly event"
  shows "bufferAfter event data b = lastN EVENT_RING_BUFFER_SIZE (b @ [(event, data)])"
proof (cases "length b < EVENT_RING_BUFFER_SIZE")
  case True
  with assms show ?thesis by (simp add: bufferAfter_def lastN_def)
next
  case False
  with assms have "length b = EVENT_RING_BUFFER_SIZE" by simp
  then have "Suc (length b) - EVENT_RING_BUFFER_SIZE = Suc 0" and "b \<noteq> []"
    and "Suc 0 - EVENT_RING_BUFFER_SIZE = 0"
    by (auto simp: EVENT_RING_BUFFER_SIZE_def)
  with assms False show ?thesis
    by (simp add: bufferAfter_def lastN_def drop_Suc)
qed

lemma lastN_lastN_append: "lastN n (lastN n xs @ ys) = lastN n (xs @ ys)"
proof (cases "length xs \<le> n")
  case True
  then show ?thesis by (simp add: lastN_def)
next
  case False
  then have "drop (length xs - n) (xs @ ys) = drop (length xs - n) xs @ ys"
    by simp
  moreover have "length xs - n + length ys = length xs + length ys - n"
    using False by simp
  ultimately show ?thesis
    using False by (simp add: lastN_def) (metis add.commute drop_drop)
qed

lemma emitAll_Cons: "emitAll (e # evs) s = emitAll evs (emitEvent (fst e) (snd e) s)"
  by (simp add: emitAll_def)


lemma eventBuffer_emitAll:
  "length (eventBuffer s) \<le> EVENT_RING_BUFFER_SIZE \<Longrightarrow>
   eventBuffer (emitAll evs s) =
     lastN EVENT_RING_BUFFER_SIZE (eventBuffer s @ filter (\<lambda>e. \<not> lifecycleOnly (fst e)) evs)"
proof (induction evs arbitrary: s)
  case Nil
  then show ?case by (simp add: emitAll_def lastN_def)
next
  case (Cons e evs)
  let ?s = "emitEvent (fst e) (snd e) s"
  have len: "length (eventBuffer ?s) \<le> EVENT_RING_BUFFER_SIZE"
    using Cons.prems by (simp add: emitEvent_eq length_bufferAfter)
  show ?case
  proof (cases "lifecycleOnly (fst e)")
    case True
    then have "eventBuffer ?s = eventBuffer s"
      by (simp add: emitEvent_eq bufferAfter_def)
    with Cons.IH [OF len] True show ?thesis
      by (simp add: emitAll_Cons)
  next
    case False
    then have "eventBuffer ?s = lastN EVENT_RING_BUFFER_SIZE (eventBuffer s @ [e])"
      using Cons.prems bufferAfter_lastN [of "eventBuffer s" "fst e" "snd e"]
      by (simp add: emitEvent_eq)
    with Cons.IH [OF len] False show ?thesis
      by (simp add: emitAll_Cons lastN_lastN_append)
  qed
qed

lemma length_lastN: "length (lastN n xs) \<le> n"
  by (simp add: lastN_def)

lemma on_wildcard:
  "on ''*'' cb s =
     s\<lparr>wildcardListeners := Set_add cb (wildcardListeners s),
       effects := effects s @ map (\<lambda>e. Invoke cb (replayArg e)) (eventBuffer s)\<rparr>"
  by (cases "eventBuffer s") (simp_all add: on_def Let_def fold_eff eff_def replayArg_def)

lemma received_append: "received cb (es @ fs) = received cb es @ received cb fs"
  by (induction cb es rule: received.induct) simp_all



lemma distinct_Set_add: "distinct xs \<Longrightarrow> distinct (Set_add x xs)"
  by (simp add: Set_add_def)




text \<open>
  C3.  If the buffer holds at most 500 entries, it holds at most 500 after any run of
  \<open>emitEvent\<close> calls (the constructor starts it empty, and \<open>reachable_invariant\<close> below
  extends the bound to every run of the client).  An event on one of the four
  lifecycle topics (connected, disconnected, auth_failed, error) leaves the buffer as it
  is.  After 501 events on other topics, starting from an empty buffer, the buffer is
  the last 500 of them: the first one has been evicted, and a wildcard listener
  registered then is replayed exactly the 2nd to the 501st.
\<close>

theorem C3_event_buffer_bounded:
  assumes "length (eventBuffer s) \<le> EVENT_RING_BUFFER_SIZE"
  shows "EVENT_RING_BUFFER_SIZE = 500
    \<and> length (eventBuffer (emitAll evs s)) \<le> 500
    \<and> (lifecycleOnly event \<longrightarrow> eventBuffer (emitEvent event data s) = eventBuffer s)
    \<and> (eventBuffer s = [] \<and> length evs = 501 \<and> (\<forall>e \<in> set evs. \<not> lifecycleOnly (fst e)) \<longrightarrow>
          eventBuffer (emitAll evs s) = tl evs
          \<and> effects (on ''*'' cb (emitAll evs s)) =
              effects (emitAll evs s) @ map (\<lambda>e. Invoke cb (replayArg e)) (tl evs))"
proof -
  have b: "eventBuffer (emitAll evs s) =
      lastN EVENT_RING_BUFFER_SIZE (eventBuffer s @ filter (\<lambda>e. \<not> lifecycleOnly (fst e)) evs)"
    using assms by (rule eventBuffer_emitAll)
  have 1: "length (eventBuffer (emitAll evs s)) \<le> 500"
    unfolding b using length_lastN [of EVENT_RING_BUFFER_SIZE] by (simp add: EVENT_RING_BUFFER_SIZE_def)
  have 2: "lifecycleOnly event \<longrightarrow> eventBuffer (emitEvent event data s) = eventBuffer s"
    by (simp add: emitEvent_eq bufferAfter_def)
  have 3: "eventBuffer (emitAll evs s) = tl evs"
    if "eventBuffer s = []" "length evs = 501" "\<forall>e \<in> set evs. \<not> lifecycleOnly (fst e)"
  proof -
    from that(3) have "filter (\<lambda>e. \<not> lifecycleOnly (fst e)) evs = evs" by simp
    with that show ?thesis
      unfolding b by (simp add: lastN_def EVENT_RING_BUFFER_SIZE_def drop_Suc)
  qed
  show ?thesis
    using 1 2 3 by (simp add: on_wildcard EVENT_RING_BUFFER_SIZE_def)
qed

theorem C3_event_buffer_bounded_witness:
  "length (eventBuffer fresh) \<le> EVENT_RING_BUFFER_SIZE
   \<and> length (eventBuffer (emitAll ticks fresh)) \<le> 500
   \<and> lifecycleOnly (JStr ''disconnected'')
   \<and> eventBuffer (emitEvent (JStr ''disconnected'') (JObj []) fresh) = eventBuffer fresh
   \<and> length ticks = 501
   \<and> eventBuffer (emitAll ticks fresh) = tl ticks
   \<and> effects (on ''*'' 7 (emitAll ticks fresh)) =
        effects (emitAll ticks fresh) @ map (\<lambda>e. Invoke 7 (replayArg e)) (tl ticks)"
  using C3_event_buffer_bounded [of fresh ticks "JStr ''disconnected''" "JObj []" 7]
  by (simp add: fresh_def constructor_def ticks_def lifecycleOnly_def
      EVENT_RING_BUFFER_SIZE_def)






subsection \<open>The RPC correlator\<close>

lemma get_prop_field:
  "get_prop v k = Inr x \<Longrightarrow> field v k = x"
  by (simp add: field_def)

lemma get_prop_cases:
  "get_prop v k = (if v = JNull \<or> v = JUndefined then Inl TypeError else Inr (field v k))"
  by (cases v) (simp_all add: field_def)

lemma field_null [simp]: "field JNull k = JUndefined" "field JUndefined k = JUndefined"
  by (simp_all add: field_def)

lemma handleMessage_unparseable:
  "JSON_parse data = None \<Longrightarrow> handleMessage JSON_parse data s = eff parseFailed s"
  by (simp add: handleMessage_def parseFailed_def)

lemma handleMessage_event:
  "JSON_parse data = Some message \<Longrightarrow> isEventFrame message \<Longrightarrow>
   handleMessage JSON_parse data s =
     emitEvent (field message ''event'') (field message ''data'') s"
  by (auto simp: handleMessage_def isEventFrame_def get_prop_cases)

lemma handleMessage_response:
  assumes "JSON_parse data = Some message" and "isResponse message rid"
    and "map_of (pendingRequests s) rid = Some pending"
  shows "handleMessage JSON_parse data s =
     s\<lparr>timers := filter (\<lambda>t. handle t \<noteq> timeout pending) (timers s),
       pendingRequests := Map_delete rid (pendingRequests s),
       effects := effects s @ [settlement message pending]\<rparr>"
proof -
  from assms(2) have n: "message \<noteq> JNull" "message \<noteq> JUndefined"
    by (auto simp: isResponse_def)
  from assms(2) have e: "\<not> (field message ''type'' = JStr ''event'' \<and> truthy (field message ''event''))"
    and i: "field message ''id'' = JStr rid" "rid \<noteq> []"
    by (simp_all add: isResponse_def isEventFrame_def)
  show ?thesis
    using assms(1,3) n e i
    by (auto simp: handleMessage_def get_prop_cases pendingGet_def Let_def clearTimeout_def
        eff_def settlement_def rpcError_def)
qed

lemma handleMessage_dropped:
  assumes "JSON_parse data = Some message" and "message \<noteq> JNull" and "message \<noteq> JUndefined"
    and "\<not> isEventFrame message"
    and "\<not> truthy (field message ''id'') \<or> pendingGet (field message ''id'') s = None"
  shows "handleMessage JSON_parse data s = s"
  using assms by (auto simp: handleMessage_def get_prop_cases isEventFrame_def)

lemma handleMessage_null:
  assumes "JSON_parse data = Some message" and "message = JNull \<or> message = JUndefined"
  shows "handleMessage JSON_parse data s = eff parseFailed s"
  using assms by (auto simp: handleMessage_def get_prop_cases parseFailed_def)

lemma pendingGet_Some:
  "pendingGet v s = Some (k, p) \<longleftrightarrow> v = JStr k \<and> map_of (pendingRequests s) k = Some p"
  by (cases v) (auto simp: pendingGet_def split: option.splits)

lemma map_of_Map_delete:
  "map_of (Map_delete k m) k' = (if k' = k then None else map_of m k')"
  by (induction m) (auto simp: Map_delete_def)

lemma opened_eq:
  "opened =
     \<lparr>url = ''ws://localhost:8080/ws'', ws = Some 0, pendingRequests = [], eventListeners = [],
      wildcardListeners = [], reconnectAttempts = 0, maxReconnectAttempts = 5,
      reconnectDelay = 1000, intentionalDisconnect = False, connectionPromise = Some 0,
      connectionResolve = Some 0, authenticated = False, eventBuffer = [],
      sockets = [(0, \<lparr>readyState = OPEN, connectReject = 0\<rparr>)],
      handshakes = [(1, \<lparr>authId = ''h'', authTimeout = 0, listeningOn = Some 0,
                         settled = False\<rparr>)],
      awaiting = [(1, 0)],
      timers = [\<lparr>handle = 0, due = 10000, action = AuthTimeout 1\<rparr>], clock = 0,
      nextHandle = 1, nextPromise = 2, nextSocket = 1,
      effects =
        [Console ''[Gateway] WebSocket connected'',
         Console ''[Gateway] Sending auth request'',
         WsSend 0 (authRequest ''h'' ''token'')]\<rparr>"
  by (simp add: opened_def fresh_def constructor_def connect_def isConnected_def noThrow_def
      newPromise_def ws_open_def onopen_def authenticate_def eff_def setTimeout_def
      wsSend_def Let_def)


lemma settlements_append: "settlements (es @ fs) = settlements es @ settlements fs"
  by (simp add: settlements_def)

lemma settlements_emitTrace: "settlements (emitTrace event data s) = []"
  by (cases "listenersFor event s") (simp_all add: emitTrace_def settlements_def)





lemma received_settlement [simp]: "received cb [settlement m p] = []"
  by (simp add: settlement_def)

lemma ready_eq:
  "ready =
     opened\<lparr>authenticated := True, connectionResolve := None, awaiting := [], timers := [],
            handshakes := [(1, \<lparr>authId = ''h'', authTimeout = 0, listeningOn = None,
                                settled = True\<rparr>)],
            effects := effects opened @
              [Console ''[Gateway] Authenticated successfully'',
               Console ''[Gateway] Event received'',
               Console ''[Gateway] No listeners for event'',
               PromiseResolve 0 JUndefined]\<rparr>"
proof -
  let ?d = "''{id: h, result: {authenticated: true}}''"
  let ?m = "JObj [(''id'', JStr ''h''), (''result'', JObj [(''authenticated'', JBool True)])]"
  have p: "parseFrames ?d = Some ?m"
    by (simp add: parseFrames_def frames_def)
  have h: "handleMessage parseFrames ?d opened = opened"
    by (rule handleMessage_dropped [of parseFrames, OF p])
      (simp_all add: isEventFrame_def field_def pendingGet_def opened_eq)
  have l: "listenersOn 0 opened = [1]"
    by (simp add: listenersOn_def opened_eq)
  have a: "handleAuthResponse parseFrames (Suc 0) ?d opened =
      opened\<lparr>authenticated := True, connectionResolve := None, awaiting := [], timers := [],
            handshakes := [(1, \<lparr>authId = ''h'', authTimeout = 0, listeningOn = None,
                                settled = True\<rparr>)],
            effects := effects opened @
              [Console ''[Gateway] Authenticated successfully'',
               Console ''[Gateway] Event received'',
               Console ''[Gateway] No listeners for event'',
               PromiseResolve 0 JUndefined]\<rparr>"
    using p
    by (simp add: handleAuthResponse_def field_def opened_eq clearTimeout_def Let_def
        settleAuth_def Map_delete_def onopen_resume_def eff_def emitEvent_eq bufferAfter_def
        emitTrace_def listenersFor_def lifecycleOnly_def)
  have so: "map_of (sockets opened) 0 = Some \<lparr>readyState = OPEN, connectReject = 0\<rparr>"
    by (simp add: opened_eq)
  show ?thesis
    by (simp add: ready_def ws_message_def h l a so)
qed





lemma handleAuthResponse_unparseable:
  "JSON_parse data = None \<Longrightarrow> handleAuthResponse JSON_parse h data s = s"
  by (simp add: handleAuthResponse_def split: option.splits)

lemma fold_skip: "(\<And>x st. f x st = st) \<Longrightarrow> fold f xs s = s"
  by (induction xs) simp_all

text \<open>
  C10.  When \<open>JSON.parse\<close> throws on the text of a frame, \<open>handleMessage\<close> adds one
  console line and nothing else: the pending table, the timers, the buffer and the
  listeners are as before, no promise is settled and no callback is called.  The
  handshake listeners ignore the frame too, so that delivering it on a socket does what
  \<open>handleMessage\<close> does, or nothing when the socket is not open.
\<close>

theorem C10_unparseable_frame:
  assumes "JSON_parse data = None"
  shows "handleMessage JSON_parse data s =
           s\<lparr>effects := effects s @ [Console ''[Gateway] Failed to parse message:'']\<rparr>
    \<and> pendingRequests (handleMessage JSON_parse data s) = pendingRequests s
    \<and> timers (handleMessage JSON_parse data s) = timers s
    \<and> eventBuffer (handleMessage JSON_parse data s) = eventBuffer s
    \<and> settlements (effects (handleMessage JSON_parse data s)) = settlements (effects s)
    \<and> received cb (effects (handleMessage JSON_parse data s)) = received cb (effects s)
    \<and> (ws_message JSON_parse k data s = handleMessage JSON_parse data s
        \<or> ws_message JSON_parse k data s = s)"
proof -
  have "fold (\<lambda>h st. if h \<in> set (listenersOn k st)
                      then handleAuthResponse JSON_parse h data st else st) hs st = st"
    for hs st
    by (rule fold_skip) (simp add: handleAuthResponse_unparseable [of JSON_parse, OF assms])
  then have "ws_message JSON_parse k data s = handleMessage JSON_parse data s
        \<or> ws_message JSON_parse k data s = s"
    by (simp add: ws_message_def split: option.splits)
  then show ?thesis
    using assms
    by (simp add: handleMessage_unparseable eff_def parseFailed_def settlements_def
        received_append)
qed

theorem C10_unparseable_frame_witness:
  "parseFrames ''{id: a, resu'' = None
   \<and> handleMessage parseFrames ''{id: a, resu'' twoCalls =
       twoCalls\<lparr>effects := effects twoCalls @ [Console ''[Gateway] Failed to parse message:'']\<rparr>
   \<and> pendingRequests (handleMessage parseFrames ''{id: a, resu'' twoCalls) =
       pendingRequests twoCalls"
proof -
  have "parseFrames ''{id: a, resu'' = None"
    by (simp add: parseFrames_def frames_def)
  from this C10_unparseable_frame [of parseFrames _ twoCalls, OF this] show ?thesis by simp
qed

lemma wsOpen_None:
  "wsOpen s = None \<longleftrightarrow>
     (ws s = None \<or> (\<exists>k. ws s = Some k \<and>
        (case map_of (sockets s) k of None \<Rightarrow> True | Some w \<Rightarrow> readyState w \<noteq> OPEN)))"
  by (auto simp: wsOpen_def split: option.splits)

lemma isConnected_wsOpen:
  "isConnected s \<longleftrightarrow> wsOpen s \<noteq> None \<and> authenticated s"
  by (auto simp: isConnected_def wsOpen_def split: option.splits)

lemma call_open:
  "wsOpen s = Some k \<Longrightarrow>
   call rid method params s =
     (Inr (nextPromise s),
      s\<lparr>pendingRequests :=
           Map_set rid \<lparr>resolve = nextPromise s, reject = nextPromise s,
                        timeout = nextHandle s\<rparr> (pendingRequests s),
        timers := timers s @
           [\<lparr>handle = nextHandle s, due = clock s + 30000,
             action = RpcTimeout rid (nextPromise s)\<rparr>],
        nextHandle := Suc (nextHandle s), nextPromise := Suc (nextPromise s),
        effects := effects s @ [WsSend k (rpcRequest rid method params)]\<rparr>)"
  by (simp add: call_def newPromise_def setTimeout_def eff_def Let_def)

text \<open>
  C6.  As stated the claim fails: \<open>call\<close> does not look at \<open>authenticated\<close>.  While the
  socket is open and the handshake is still under way the client is not connected in
  the sense of \<open>isConnected\<close>, yet a call is registered, gets its timer and is sent.
\<close>

theorem C6_counterexample:
  "\<not> isConnected opened \<and> \<not> authenticated opened
   \<and> fst (call ''a'' ''getBalance'' (JObj [(''addr'', JStr ''0x1'')]) opened) = Inr 2
   \<and> pendingRequests (snd (call ''a'' ''getBalance'' (JObj [(''addr'', JStr ''0x1'')]) opened))
       = [(''a'', \<lparr>resolve = 2, reject = 2, timeout = 1\<rparr>)]
   \<and> effects (snd (call ''a'' ''getBalance'' (JObj [(''addr'', JStr ''0x1'')]) opened))
       = effects opened
         @ [WsSend 0 (rpcRequest ''a'' ''getBalance'' (JObj [(''addr'', JStr ''0x1'')]))]"
proof -
  have "wsOpen opened = Some 0"
    by (simp add: wsOpen_def opened_eq)
  from call_open [OF this] show ?thesis
    by (simp add: isConnected_def) (simp add: opened_eq)
qed

text \<open>
  C6, amended.  The guard of \<open>call\<close> is \<open>!this.ws || this.ws.readyState !== OPEN\<close>.
  When there is no socket, or the socket is not open, \<open>call\<close> throws \<open>WebSocket not
  connected\<close> and changes nothing: no entry, no timer, no frame.  When the socket is open
  the call goes out, whether the handshake has completed or not.
\<close>

theorem C6_call_requires_open_socket:
  "(wsOpen s = None \<longrightarrow>
      call rid method params s = (Inl (JError (JStr ''WebSocket not connected'')), s))
   \<and> (wsOpen s = Some k \<longrightarrow>
        fst (call rid method params s) = Inr (nextPromise s)
        \<and> map_of (pendingRequests (snd (call rid method params s))) rid =
            Some \<lparr>resolve = nextPromise s, reject = nextPromise s, timeout = nextHandle s\<rparr>
        \<and> effects (snd (call rid method params s)) =
            effects s @ [WsSend k (rpcRequest rid method params)])
   \<and> (wsOpen s = None) =
        (ws s = None \<or> (\<exists>k. ws s = Some k \<and>
          (case map_of (sockets s) k of None \<Rightarrow> True | Some w \<Rightarrow> readyState w \<noteq> OPEN)))"
proof -
  have m: "map_of (Map_set a b m) a = Some b" for a :: string and b :: pending_request and m
    by (induction m) auto
  have 1: "call rid method params s = (Inl (JError (JStr ''WebSocket not connected'')), s)"
    if "wsOpen s = None"
    using that by (simp add: call_def)
  have 2: "fst (call rid method params s) = Inr (nextPromise s)
        \<and> map_of (pendingRequests (snd (call rid method params s))) rid =
            Some \<lparr>resolve = nextPromise s, reject = nextPromise s, timeout = nextHandle s\<rparr>
        \<and> effects (snd (call rid method params s)) =
            effects s @ [WsSend k (rpcRequest rid method params)]"
    if "wsOpen s = Some k"
    using that by (simp add: call_open m)
  show ?thesis
    using 1 2 wsOpen_None [of s] by blast
qed

theorem C6_call_requires_open_socket_witness:
  "wsOpen fresh = None
   \<and> call ''a'' ''getBalance'' JUndefined fresh =
       (Inl (JError (JStr ''WebSocket not connected'')), fresh)
   \<and> wsOpen opened = Some 0
   \<and> fst (call ''a'' ''getBalance'' JUndefined opened) = Inr (nextPromise opened)"
proof -
  have "wsOpen fresh = None" "wsOpen opened = Some 0"
    by (simp_all add: wsOpen_def fresh_def constructor_def opened_eq)
  with C6_call_requires_open_socket [of fresh "''a''" "''getBalance''" JUndefined 0]
    C6_call_requires_open_socket [of opened "''a''" "''getBalance''" JUndefined 0]
  show ?thesis by simp
qed

subsection \<open>disconnect\<close>

lemma fold_rejectPending:
  "fold rejectPending ps s =
     s\<lparr>timers := filter (\<lambda>t. handle t \<notin> (\<lambda>p. timeout (snd p)) ` set ps) (timers s),
       effects := effects s @
         map (\<lambda>p. PromiseReject (reject (snd p)) (JError (JStr ''Connection closed''))) ps\<rparr>"
proof (induction ps arbitrary: s)
  case Nil
  then show ?case by simp
next
  case (Cons p ps)
  have "filter (\<lambda>t. handle t \<notin> (\<lambda>p. timeout (snd p)) ` set ps)
          (filter (\<lambda>t. handle t \<noteq> timeout (snd p)) ts) =
        filter (\<lambda>t. handle t \<notin> (\<lambda>p. timeout (snd p)) ` set (p # ps)) ts" for ts :: "timer list"
    by (induction ts) auto
  then show ?case
    by (simp add: Cons.IH) (simp add: rejectPending_def clearTimeout_def eff_def)
qed

lemma wsClose_eq:
  "wsClose k s = s \<or>
   (\<exists>w. map_of (sockets s) k = Some w \<and>
      wsClose k s = s\<lparr>sockets := (if readyState w = CLOSING \<or> readyState w = CLOSED
                                   then sockets s
                                   else Map_set k (w\<lparr>readyState := CLOSING\<rparr>) (sockets s)),
                      effects := effects s @ [WsClose k]\<rparr>)"
  by (cases "map_of (sockets s) k") (auto simp: wsClose_def eff_def)

lemma disconnect_fields:
  "ws (disconnect s) = None"
  "authenticated (disconnect s) = False"
  "intentionalDisconnect (disconnect s) = True"
  "connectionPromise (disconnect s) = None"
  "pendingRequests (disconnect s) = []"
  "eventBuffer (disconnect s) = []"
  "eventListeners (disconnect s) = eventListeners s"
  "wildcardListeners (disconnect s) = wildcardListeners s"
  "reconnectAttempts (disconnect s) = reconnectAttempts s"
  "reconnectDelay (disconnect s) = reconnectDelay s"
  "maxReconnectAttempts (disconnect s) = maxReconnectAttempts s"
  using wsClose_eq [of "the (ws s)" "s\<lparr>intentionalDisconnect := True, authenticated := False\<rparr>"]
  by (cases "ws s"; auto simp: disconnect_def Let_def fold_rejectPending)+

text \<open>
  C9.  As stated the claim fails: \<open>disconnect\<close> leaves both listener collections as they
  are.  A client with a listener for one topic and a wildcard listener still has both
  after \<open>disconnect\<close>.
\<close>

theorem C9_counterexample:
  "eventListeners (disconnect (on ''*'' 7 (on ''agent.response'' 3 opened))) =
     [(''agent.response'', [3])]
   \<and> wildcardListeners (disconnect (on ''*'' 7 (on ''agent.response'' 3 opened))) = [7]"
  by (simp add: disconnect_fields) (simp add: on_def opened_eq Set_add_def Let_def)

text \<open>
  C9, amended.  After \<open>disconnect\<close> the client has no socket, is not authenticated (so
  not connected), has no connect promise, an empty table of pending requests and an
  empty event buffer.  The listeners, for single topics and wildcard, stay registered.
\<close>

theorem C9_disconnect_teardown:
  "ws (disconnect s) = None
   \<and> authenticated (disconnect s) = False
   \<and> \<not> isConnected (disconnect s)
   \<and> connectionPromise (disconnect s) = None
   \<and> pendingRequests (disconnect s) = []
   \<and> eventBuffer (disconnect s) = []
   \<and> eventListeners (disconnect s) = eventListeners s
   \<and> wildcardListeners (disconnect s) = wildcardListeners s"
  by (simp add: disconnect_fields isConnected_def)

theorem C9_disconnect_teardown_witness:
  "ws (disconnect twoCalls) = None
   \<and> pendingRequests (disconnect twoCalls) = []
   \<and> eventBuffer (disconnect twoCalls) = []
   \<and> wildcardListeners (disconnect twoCalls) = wildcardListeners twoCalls"
  using C9_disconnect_teardown [of twoCalls] by simp

subsection \<open>What each operation leaves alone\<close>

lemma emitEvent_keeps:
  "pendingRequests (emitEvent e d s) = pendingRequests s"
  "timers (emitEvent e d s) = timers s"
  "nextHandle (emitEvent e d s) = nextHandle s"
  "clock (emitEvent e d s) = clock s"
  "reconnectAttempts (emitEvent e d s) = reconnectAttempts s"
  "reconnectDelay (emitEvent e d s) = reconnectDelay s"
  "maxReconnectAttempts (emitEvent e d s) = maxReconnectAttempts s"
  "intentionalDisconnect (emitEvent e d s) = intentionalDisconnect s"
  "wildcardListeners (emitEvent e d s) = wildcardListeners s"
  "eventListeners (emitEvent e d s) = eventListeners s"
  "ws (emitEvent e d s) = ws s"
  "sockets (emitEvent e d s) = sockets s"
  "handshakes (emitEvent e d s) = handshakes s"
  "awaiting (emitEvent e d s) = awaiting s"
  "connectionPromise (emitEvent e d s) = connectionPromise s"
  "connectionResolve (emitEvent e d s) = connectionResolve s"
  "authenticated (emitEvent e d s) = authenticated s"
  "nextPromise (emitEvent e d s) = nextPromise s"
  "nextSocket (emitEvent e d s) = nextSocket s"
  "url (emitEvent e d s) = url s"
  by (simp_all add: emitEvent_eq)

lemma emitEvent_lifecycle_buffer:
  "lifecycleOnly e \<Longrightarrow> eventBuffer (emitEvent e d s) = eventBuffer s"
  by (simp add: emitEvent_eq bufferAfter_def)

lemma lifecycleOnly_simps [simp]:
  "lifecycleOnly (JStr ''connected'')" "lifecycleOnly (JStr ''disconnected'')"
  "lifecycleOnly (JStr ''auth_failed'')" "lifecycleOnly (JStr ''error'')"
  by (simp_all add: lifecycleOnly_def)

lemma wsClose_keeps:
  "pendingRequests (wsClose k s) = pendingRequests s"
  "timers (wsClose k s) = timers s"
  "nextHandle (wsClose k s) = nextHandle s"
  "clock (wsClose k s) = clock s"
  "reconnectAttempts (wsClose k s) = reconnectAttempts s"
  "reconnectDelay (wsClose k s) = reconnectDelay s"
  "maxReconnectAttempts (wsClose k s) = maxReconnectAttempts s"
  "intentionalDisconnect (wsClose k s) = intentionalDisconnect s"
  "wildcardListeners (wsClose k s) = wildcardListeners s"
  "eventListeners (wsClose k s) = eventListeners s"
  "eventBuffer (wsClose k s) = eventBuffer s"
  "ws (wsClose k s) = ws s"
  "handshakes (wsClose k s) = handshakes s"
  "awaiting (wsClose k s) = awaiting s"
  "nextSocket (wsClose k s) = nextSocket s"
  using wsClose_eq [of k s] by auto

lemma onopen_catch_keeps:
  "pendingRequests (onopen_catch rej e s) = pendingRequests s"
  "timers (onopen_catch rej e s) = timers s"
  "nextHandle (onopen_catch rej e s) = nextHandle s"
  "clock (onopen_catch rej e s) = clock s"
  "reconnectAttempts (onopen_catch rej e s) = reconnectAttempts s"
  "reconnectDelay (onopen_catch rej e s) = reconnectDelay s"
  "maxReconnectAttempts (onopen_catch rej e s) = maxReconnectAttempts s"
  "intentionalDisconnect (onopen_catch rej e s) = intentionalDisconnect s"
  "wildcardListeners (onopen_catch rej e s) = wildcardListeners s"
  "eventListeners (onopen_catch rej e s) = eventListeners s"
  "eventBuffer (onopen_catch rej e s) = eventBuffer s"
  "ws (onopen_catch rej e s) = ws s"
  "handshakes (onopen_catch rej e s) = handshakes s"
  "awaiting (onopen_catch rej e s) = awaiting s"
  "nextSocket (onopen_catch rej e s) = nextSocket s"
  by (cases "ws s"; simp add: onopen_catch_def Let_def eff_def emitEvent_keeps wsClose_keeps
        emitEvent_lifecycle_buffer)+

lemma onopen_resume_keeps:
  "pendingRequests (onopen_resume s) = pendingRequests s"
  "timers (onopen_resume s) = timers s"
  "nextHandle (onopen_resume s) = nextHandle s"
  "clock (onopen_resume s) = clock s"
  "reconnectAttempts (onopen_resume s) = reconnectAttempts s"
  "reconnectDelay (onopen_resume s) = reconnectDelay s"
  "maxReconnectAttempts (onopen_resume s) = maxReconnectAttempts s"
  "intentionalDisconnect (onopen_resume s) = intentionalDisconnect s"
  "wildcardListeners (onopen_resume s) = wildcardListeners s"
  "eventListeners (onopen_resume s) = eventListeners s"
  "eventBuffer (onopen_resume s) = eventBuffer s"
  "ws (onopen_resume s) = ws s"
  "handshakes (onopen_resume s) = handshakes s"
  "awaiting (onopen_resume s) = awaiting s"
  "nextSocket (onopen_resume s) = nextSocket s"
  by (cases "connectionResolve s"; simp add: onopen_resume_def Let_def eff_def emitEvent_keeps
        emitEvent_lifecycle_buffer)+

lemma settleAuth_keeps:
  "pendingRequests (settleAuth h out s) = pendingRequests s"
  "timers (settleAuth h out s) = timers s"
  "nextHandle (settleAuth h out s) = nextHandle s"
  "clock (settleAuth h out s) = clock s"
  "reconnectAttempts (settleAuth h out s) = reconnectAttempts s"
  "reconnectDelay (settleAuth h out s) = reconnectDelay s"
  "maxReconnectAttempts (settleAuth h out s) = maxReconnectAttempts s"
  "intentionalDisconnect (settleAuth h out s) = intentionalDisconnect s"
  "wildcardListeners (settleAuth h out s) = wildcardListeners s"
  "eventListeners (settleAuth h out s) = eventListeners s"
  "eventBuffer (settleAuth h out s) = eventBuffer s"
  "ws (settleAuth h out s) = ws s"
  "nextSocket (settleAuth h out s) = nextSocket s"
  by (simp_all add: settleAuth_def Let_def onopen_resume_keeps onopen_catch_keeps
        split: option.splits)

lemma connect_keeps:
  "pendingRequests (snd (connect W s)) = pendingRequests s"
  "timers (snd (connect W s)) = timers s"
  "nextHandle (snd (connect W s)) = nextHandle s"
  "clock (snd (connect W s)) = clock s"
  "reconnectAttempts (snd (connect W s)) = reconnectAttempts s"
  "reconnectDelay (snd (connect W s)) = reconnectDelay s"
  "maxReconnectAttempts (snd (connect W s)) = maxReconnectAttempts s"
  "intentionalDisconnect (snd (connect W s)) = intentionalDisconnect s"
  "wildcardListeners (snd (connect W s)) = wildcardListeners s"
  "eventListeners (snd (connect W s)) = eventListeners s"
  "eventBuffer (snd (connect W s)) = eventBuffer s"
  by (simp_all add: connect_def Let_def newPromise_def eff_def split: option.splits)

lemma onerror_keeps:
  "pendingRequests (onerror rej s) = pendingRequests s"
  "timers (onerror rej s) = timers s"
  "nextHandle (onerror rej s) = nextHandle s"
  "clock (onerror rej s) = clock s"
  "reconnectAttempts (onerror rej s) = reconnectAttempts s"
  "reconnectDelay (onerror rej s) = reconnectDelay s"
  "maxReconnectAttempts (onerror rej s) = maxReconnectAttempts s"
  "intentionalDisconnect (onerror rej s) = intentionalDisconnect s"
  "wildcardListeners (onerror rej s) = wildcardListeners s"
  "eventListeners (onerror rej s) = eventListeners s"
  "eventBuffer (onerror rej s) = eventBuffer s"
  by (simp_all add: onerror_def Let_def eff_def emitEvent_keeps emitEvent_lifecycle_buffer)

lemma onclose_eq:
  "onclose s =
     (let s3 = (emitEvent (JStr ''disconnected'') (JObj [])
                  (eff (Console ''[Gateway] Connection closed'') s\<lparr>authenticated := False\<rparr>))
                \<lparr>connectionPromise := None\<rparr>
      in if \<not> intentionalDisconnect s \<and> reconnectAttempts s < maxReconnectAttempts s
         then s3\<lparr>reconnectAttempts := Suc (reconnectAttempts s),
                 timers := timers s @
                   [\<lparr>handle = nextHandle s, due = clock s + reconnectDelay s,
                     action = Reconnect\<rparr>],
                 nextHandle := Suc (nextHandle s),
                 reconnectDelay := min (reconnectDelay s * 2) 30000,
                 effects := effects s3 @ [Console ''[Gateway] Reconnecting'']\<rparr>
         else s3)"
  by (simp add: onclose_def Let_def setTimeout_def eff_def emitEvent_keeps emitEvent_eq)

lemma settlements_simps [simp]:
  "settlements [] = []"
  "settlements (Console x # es) = settlements es"
  "settlements (Invoke c a # es) = settlements es"
  "settlements (WsSend k f # es) = settlements es"
  "settlements (WsClose k # es) = settlements es"
  "settlements (PromiseResolve p v # es) = PromiseResolve p v # settlements es"
  "settlements (PromiseReject p v # es) = PromiseReject p v # settlements es"
  by (simp_all add: settlements_def)

lemma onclose_keeps:
  "pendingRequests (onclose s) = pendingRequests s"
  "clock (onclose s) = clock s"
  "maxReconnectAttempts (onclose s) = maxReconnectAttempts s"
  "intentionalDisconnect (onclose s) = intentionalDisconnect s"
  "wildcardListeners (onclose s) = wildcardListeners s"
  "eventListeners (onclose s) = eventListeners s"
  "eventBuffer (onclose s) = eventBuffer s"
  "settlements (effects (onclose s)) = settlements (effects s)"
  by (simp_all add: onclose_eq Let_def eff_def emitEvent_keeps emitEvent_lifecycle_buffer)
    (simp_all add: emitEvent_eq settlements_append settlements_emitTrace)

subsection \<open>The trace only grows\<close>

lemma grows_refl [simp]: "grows s s"
  by (simp add: grows_def)

lemma grows_trans: "grows s s' \<Longrightarrow> grows s' s'' \<Longrightarrow> grows s s''"
  by (auto simp: grows_def)

lemma grows_mem: "grows s s' \<Longrightarrow> e \<in> set (effects s) \<Longrightarrow> e \<in> set (effects s')"
  by (auto simp: grows_def)

lemma grows_effects_upd [simp]: "grows s (s'\<lparr>effects := effects s @ es\<rparr>)"
  by (simp add: grows_def)

lemma grows_eff: "grows s (eff e s)"
  by (simp add: grows_def eff_def)

lemma grows_emitEvent: "grows s (emitEvent e d s)"
  by (simp add: grows_def emitEvent_eq)

lemma grows_wsClose: "grows s (wsClose k s)"
  using wsClose_eq [of k s] by (auto simp: grows_def)

lemma grows_same_effects: "effects s' = effects s \<Longrightarrow> grows s s'"
  by (simp add: grows_def)

lemma grows_onopen_catch: "grows s (onopen_catch rej e s)"
proof -
  let ?s1 = "eff (Console ''[Gateway] Authentication failed:'') s"
  let ?s2 = "emitEvent (JStr ''auth_failed'') (JObj [(''error'', e)]) ?s1"
  let ?s3 = "case ws ?s2 of Some k \<Rightarrow> wsClose k ?s2 | None \<Rightarrow> ?s2"
  have 1: "grows s ?s1" by (rule grows_eff)
  have 2: "grows ?s1 ?s2" by (rule grows_emitEvent)
  have 3: "grows ?s2 ?s3" by (cases "ws ?s2") (simp_all add: grows_wsClose)
  have 4: "grows ?s3 (eff (PromiseReject rej e) ?s3)" by (rule grows_eff)
  have "onopen_catch rej e s = eff (PromiseReject rej e) ?s3"
    by (simp add: onopen_catch_def Let_def)
  with grows_trans [OF grows_trans [OF grows_trans [OF 1 2] 3] 4] show ?thesis
    by simp
qed

lemma grows_onopen_resume: "grows s (onopen_resume s)"
  by (cases "connectionResolve s")
    (simp_all add: onopen_resume_def Let_def grows_def emitEvent_eq eff_def emitEvent_keeps)

lemma grows_settleAuth: "grows s (settleAuth h out s)"
proof -
  have "grows s (onopen_resume (s\<lparr>handshakes := hs, awaiting := aw\<rparr>))" for hs aw
    using grows_onopen_resume [of "s\<lparr>handshakes := hs, awaiting := aw\<rparr>"]
    by (simp add: grows_def)
  moreover have "grows s (onopen_catch rej e (s\<lparr>handshakes := hs, awaiting := aw\<rparr>))"
    for hs aw rej e
    using grows_onopen_catch [of "s\<lparr>handshakes := hs, awaiting := aw\<rparr>"]
    by (simp add: grows_def)
  ultimately show ?thesis
    by (simp add: settleAuth_def Let_def grows_same_effects split: option.splits)
qed

lemma grows_connect: "grows s (snd (connect W s))"
  by (simp add: connect_def Let_def newPromise_def eff_def grows_def split: option.splits)

subsection \<open>Timers\<close>

lemma fire_timers:
  "timers (fire W t s) =
     (if handle t \<in> handle ` set (timers s)
      then filter (\<lambda>u. handle u \<noteq> handle t) (timers s) else timers s)"
  by (cases "action t")
    (simp_all add: fire_def Let_def connect_keeps settleAuth_keeps eff_def)

lemma fire_nextHandle: "nextHandle (fire W t s) = nextHandle s"
  by (cases "action t")
    (simp_all add: fire_def Let_def connect_keeps settleAuth_keeps eff_def)

lemma fire_pendingRequests:
  "pendingRequests (fire W t s) =
     (if handle t \<in> handle ` set (timers s)
      then (case action t of
              RpcTimeout rid rej \<Rightarrow> Map_delete rid (pendingRequests s)
            | _ \<Rightarrow> pendingRequests s)
      else pendingRequests s)"
  by (cases "action t")
    (simp_all add: fire_def Let_def connect_keeps settleAuth_keeps eff_def)

lemma grows_fire: "grows s (fire W t s)"
proof (cases "handle t \<in> handle ` set (timers s)")
  case False
  then show ?thesis by (simp add: fire_def)
next
  case True
  let ?s1 = "s\<lparr>timers := filter (\<lambda>u. handle u \<noteq> handle t) (timers s),
                 clock := max (clock s) (due t)\<rparr>"
  have 1: "grows s ?s1" by (simp add: grows_def)
  show ?thesis
  proof (cases "action t")
    case Reconnect
    with True grows_trans [OF 1 grows_connect [of ?s1 W]] show ?thesis
      by (simp add: fire_def)
  next
    case (RpcTimeout rid rej)
    with True show ?thesis by (simp add: fire_def eff_def grows_def)
  next
    case (AuthTimeout h)
    with True grows_trans [OF 1 grows_settleAuth [of ?s1 h]] show ?thesis
      by (simp add: fire_def)
  qed
qed

lemma fire_rpc_timeout:
  assumes "handle t \<in> handle ` set (timers s)" and "action t = RpcTimeout rid p"
  shows "map_of (pendingRequests (fire W t s)) rid = None"
    and "PromiseReject p (JError (JStr ''RPC call timed out'')) \<in> set (effects (fire W t s))"
  using assms by (simp_all add: fire_def eff_def map_of_Map_delete)

lemma keys_Map_delete: "fst ` set (Map_delete k m) = fst ` set m - {k}"
  by (auto simp: Map_delete_def)

lemma fire_keys: "fst ` set (pendingRequests (fire W t s)) \<subseteq> fst ` set (pendingRequests s)"
  by (cases "action t") (auto simp: fire_pendingRequests keys_Map_delete)

lemma fold_fire_keys:
  "fst ` set (pendingRequests (fold (fire W) ts s)) \<subseteq> fst ` set (pendingRequests s)"
proof (induction ts arbitrary: s)
  case Nil
  then show ?case by simp
next
  case (Cons t ts)
  from Cons.IH [of "fire W t s"] fire_keys [of W t s] show ?case by auto
qed

lemma grows_fold_fire: "grows s (fold (fire W) ts s)"
proof (induction ts arbitrary: s)
  case Nil
  then show ?case by simp
next
  case (Cons t ts)
  from grows_trans [OF grows_fire Cons.IH] show ?case by simp
qed

lemma map_of_None_keys: "map_of m k = None \<longleftrightarrow> k \<notin> fst ` set m"
  by (simp add: map_of_eq_None_iff)

lemma fold_fire_timeout:
  assumes "T \<in> set ts" and "T \<in> set (timers s)"
    and "\<forall>t \<in> set ts. t \<noteq> T \<longrightarrow> handle t \<noteq> handle T"
    and "action T = RpcTimeout rid p"
  shows "map_of (pendingRequests (fold (fire W) ts s)) rid = None
    \<and> PromiseReject p (JError (JStr ''RPC call timed out''))
        \<in> set (effects (fold (fire W) ts s))"
  using assms
proof (induction ts arbitrary: s)
  case Nil
  then show ?case by simp
next
  case (Cons t ts)
  show ?case
  proof (cases "t = T")
    case True
    from Cons.prems(2) have h: "handle T \<in> handle ` set (timers s)" by auto
    note f = fire_rpc_timeout [OF h Cons.prems(4), of W]
    have "rid \<notin> fst ` set (pendingRequests (fold (fire W) ts (fire W T s)))"
      using fold_fire_keys [of W ts "fire W T s"] f(1) by (auto simp: map_of_None_keys)
    moreover have "PromiseReject p (JError (JStr ''RPC call timed out''))
        \<in> set (effects (fold (fire W) ts (fire W T s)))"
      using grows_mem [OF grows_fold_fire f(2)] .
    ultimately show ?thesis using True by (simp add: map_of_None_keys)
  next
    case False
    with Cons.prems have m: "T \<in> set ts" and ne: "handle t \<noteq> handle T" by auto
    have tm: "T \<in> set (timers (fire W t s))"
      using Cons.prems(2) ne by (auto simp: fire_timers)
    have o: "\<forall>t \<in> set ts. t \<noteq> T \<longrightarrow> handle t \<noteq> handle T"
      using Cons.prems(3) by auto
    have "fold (fire W) (t # ts) s = fold (fire W) ts (fire W t s)" by simp
    with Cons.IH [OF m tm o Cons.prems(4)] show ?thesis by metis
  qed
qed

lemma fold_fire_keeps_entry:
  assumes "\<forall>t \<in> set ts. \<forall>p. action t \<noteq> RpcTimeout rid p"
  shows "map_of (pendingRequests (fold (fire W) ts s)) rid = map_of (pendingRequests s) rid"
  using assms
proof (induction ts arbitrary: s)
  case Nil
  then show ?case by simp
next
  case (Cons t ts)
  have "map_of (pendingRequests (fire W t s)) rid = map_of (pendingRequests s) rid"
  proof (cases "action t")
    case (RpcTimeout r p)
    with Cons.prems have "r \<noteq> rid" by auto
    with RpcTimeout show ?thesis
      by (simp add: fire_pendingRequests map_of_Map_delete)
  qed (simp_all add: fire_pendingRequests)
  with Cons.IH [of "fire W t s"] Cons.prems show ?case by simp
qed

lemma advance_fields:
  "pendingRequests (advance W ms s) =
     pendingRequests (fold (fire W)
       (sort_key due (filter (\<lambda>t. due t \<le> clock s + ms) (timers s))) s)"
  "effects (advance W ms s) =
     effects (fold (fire W)
       (sort_key due (filter (\<lambda>t. due t \<le> clock s + ms) (timers s))) s)"
  by (simp_all add: advance_def Let_def)

lemma map_of_Map_set: "map_of (Map_set k v m) k' = (if k' = k then Some v else map_of m k')"
  by (induction m) auto

lemma keys_Map_set: "fst ` set (Map_set k v m) = insert k (fst ` set m)"
  by (induction m) auto

text \<open>
  C2.  A call made on an open socket registers its entry and a timer due 30 seconds
  later.  If 30 seconds then pass and nothing else happens (the peer never answers), the
  timer fires: the entry is removed from the table and the promise of the call is
  rejected with \<open>RPC call timed out\<close>; a table that held no other entry is empty.
  Before the 30 seconds are over the entry is still pending, provided the id is fresh
  (no timer of an earlier call carries it).  The hypothesis on handles says that timer
  handles are issued in increasing order, as \<open>setTimeout\<close> does; it holds of every state
  the client reaches (\<open>reachable_invariant\<close> below).
\<close>

theorem C2_call_times_out:
  assumes "wsOpen s = Some k" and "\<forall>t \<in> set (timers s). handle t < nextHandle s"
  shows "fst (call rid method params s) = Inr (nextPromise s)
    \<and> map_of (pendingRequests (snd (call rid method params s))) rid =
        Some \<lparr>resolve = nextPromise s, reject = nextPromise s, timeout = nextHandle s\<rparr>
    \<and> map_of (pendingRequests (advance W 30000 (snd (call rid method params s)))) rid = None
    \<and> PromiseReject (nextPromise s) (JError (JStr ''RPC call timed out''))
        \<in> set (effects (advance W 30000 (snd (call rid method params s))))
    \<and> (pendingRequests s = [] \<longrightarrow>
          pendingRequests (advance W 30000 (snd (call rid method params s))) = [])
    \<and> (ms < 30000 \<and> (\<forall>t \<in> set (timers s). \<forall>p. action t \<noteq> RpcTimeout rid p) \<longrightarrow>
          map_of (pendingRequests (advance W ms (snd (call rid method params s)))) rid =
            Some \<lparr>resolve = nextPromise s, reject = nextPromise s, timeout = nextHandle s\<rparr>)"
proof -
  let ?T = "\<lparr>handle = nextHandle s, due = clock s + 30000,
             action = RpcTimeout rid (nextPromise s)\<rparr>"
  let ?e = "\<lparr>resolve = nextPromise s, reject = nextPromise s, timeout = nextHandle s\<rparr>"
  let ?s1 = "snd (call rid method params s)"
  note c = call_open [OF assms(1), of rid "method" "params"]
  have t1: "timers ?s1 = timers s @ [?T]" and c1: "clock ?s1 = clock s"
    and p1: "pendingRequests ?s1 = Map_set rid ?e (pendingRequests s)"
    by (simp_all add: c)
  have e1: "map_of (pendingRequests ?s1) rid = Some ?e"
    by (simp add: p1 map_of_Map_set)
  let ?due = "sort_key due (filter (\<lambda>t. due t \<le> clock ?s1 + 30000) (timers ?s1))"
  have "?T \<in> set ?due" by (simp add: t1 c1)
  moreover have "?T \<in> set (timers ?s1)" by (simp add: t1)
  moreover have "\<forall>t \<in> set ?due. t \<noteq> ?T \<longrightarrow> handle t \<noteq> handle ?T"
    using assms(2) by (auto simp: t1)
  moreover have "action ?T = RpcTimeout rid (nextPromise s)" by simp
  ultimately have f: "map_of (pendingRequests (fold (fire W) ?due ?s1)) rid = None
    \<and> PromiseReject (nextPromise s) (JError (JStr ''RPC call timed out''))
        \<in> set (effects (fold (fire W) ?due ?s1))"
    by (rule fold_fire_timeout)
  have 3: "map_of (pendingRequests (advance W 30000 ?s1)) rid = None"
    and 4: "PromiseReject (nextPromise s) (JError (JStr ''RPC call timed out''))
        \<in> set (effects (advance W 30000 ?s1))"
    using f by (simp_all add: advance_fields)
  have 5: "pendingRequests (advance W 30000 ?s1) = []" if "pendingRequests s = []"
  proof -
    have "fst ` set (pendingRequests (advance W 30000 ?s1)) \<subseteq> {rid}"
      using fold_fire_keys [of W ?due ?s1] that by (simp add: advance_fields p1)
    moreover have "rid \<notin> fst ` set (pendingRequests (advance W 30000 ?s1))"
      using 3 by (simp add: map_of_None_keys)
    ultimately show ?thesis by (cases "pendingRequests (advance W 30000 ?s1)") auto
  qed
  have 6: "map_of (pendingRequests (advance W ms ?s1)) rid = Some ?e"
    if "ms < 30000" "\<forall>t \<in> set (timers s). \<forall>p. action t \<noteq> RpcTimeout rid p"
  proof -
    let ?d = "sort_key due (filter (\<lambda>t. due t \<le> clock ?s1 + ms) (timers ?s1))"
    have "set ?d \<subseteq> set (timers s)"
      using that(1) by (auto simp: t1 c1)
    with that(2) have "\<forall>t \<in> set ?d. \<forall>p. action t \<noteq> RpcTimeout rid p" by blast
    from fold_fire_keeps_entry [OF this, of W ?s1] e1 show ?thesis
      by (simp add: advance_fields)
  qed
  show ?thesis
    using c e1 3 4 5 6 by simp
qed

theorem C2_call_times_out_witness:
  "wsOpen opened = Some 0
   \<and> fst (call ''a'' ''getBalance'' JUndefined opened) = Inr 2
   \<and> pendingRequests opened = []
   \<and> pendingRequests (advance noThrow 30000 (snd (call ''a'' ''getBalance'' JUndefined opened)))
       = []
   \<and> PromiseReject 2 (JError (JStr ''RPC call timed out''))
       \<in> set (effects (advance noThrow 30000
                         (snd (call ''a'' ''getBalance'' JUndefined opened))))"
proof -
  have h: "wsOpen opened = Some 0" "\<forall>t \<in> set (timers opened). handle t < nextHandle opened"
    and p: "pendingRequests opened = []" "nextPromise opened = 2"
    by (simp_all add: wsOpen_def opened_eq)
  from C2_call_times_out [OF h, of "''a''" "''getBalance''" JUndefined noThrow 0] h(1) p
  show ?thesis by simp
qed

subsection \<open>The reconnect backoff\<close>

lemma fold_keeps:
  assumes "\<And>x st. f (g x st) = f st"
  shows "f (fold g xs s) = f s"
  by (induction xs arbitrary: s) (simp_all add: assms)

lemma backoff_upd [simp]:
  "backoff (s\<lparr>effects := es\<rparr>) = backoff s"
  "backoff (s\<lparr>timers := ts\<rparr>) = backoff s"
  "backoff (s\<lparr>pendingRequests := ps\<rparr>) = backoff s"
  "backoff (s\<lparr>handshakes := hs\<rparr>) = backoff s"
  "backoff (s\<lparr>awaiting := aw\<rparr>) = backoff s"
  "backoff (s\<lparr>clock := c\<rparr>) = backoff s"
  "backoff (s\<lparr>eventBuffer := b\<rparr>) = backoff s"
  "backoff (s\<lparr>wildcardListeners := wl\<rparr>) = backoff s"
  "backoff (s\<lparr>eventListeners := el\<rparr>) = backoff s"
  "backoff (s\<lparr>nextHandle := nh\<rparr>) = backoff s"
  "backoff (s\<lparr>nextPromise := np\<rparr>) = backoff s"
  "backoff (s\<lparr>sockets := so\<rparr>) = backoff s"
  "backoff (s\<lparr>ws := w\<rparr>) = backoff s"
  "backoff (s\<lparr>authenticated := a\<rparr>) = backoff s"
  "backoff (s\<lparr>connectionPromise := cp\<rparr>) = backoff s"
  "backoff (s\<lparr>intentionalDisconnect := i\<rparr>) = backoff s"
  by (simp_all add: backoff_def)

lemma backoff_helpers:
  "backoff (emitEvent e d s) = backoff s"
  "backoff (settleAuth h out s) = backoff s"
  "backoff (snd (connect W s)) = backoff s"
  "backoff (onerror rej s) = backoff s"
  "backoff (onopen_catch rej e s) = backoff s"
  "backoff (disconnect s) = backoff s"
  by (simp_all add: backoff_def emitEvent_keeps settleAuth_keeps connect_keeps onerror_keeps
      onopen_catch_keeps disconnect_fields)

lemma backoff_handleMessage: "backoff (handleMessage P d s) = backoff s"
  by (simp add: handleMessage_def Let_def eff_def clearTimeout_def backoff_helpers
      split: option.splits sum.splits prod.splits)

lemma backoff_handleAuthResponse: "backoff (handleAuthResponse P h d s) = backoff s"
  by (simp add: handleAuthResponse_def Let_def clearTimeout_def backoff_helpers
      split: option.splits sum.splits)

lemma backoff_ws_message: "backoff (ws_message P k d s) = backoff s"
proof -
  have "backoff (fold (\<lambda>h st. if h \<in> set (listenersOn k st)
                      then handleAuthResponse P h d st else st) hs st) = backoff st" for hs st
    by (rule fold_keeps) (simp add: backoff_handleAuthResponse)
  then show ?thesis
    by (simp add: ws_message_def backoff_handleMessage split: option.splits)
qed

lemma backoff_fire: "backoff (fire W t s) = backoff s"
  by (cases "action t") (simp_all add: fire_def Let_def eff_def backoff_helpers)

lemma backoff_advance: "backoff (advance W ms s) = backoff s"
  by (simp add: advance_def Let_def fold_keeps [where f = backoff] backoff_fire)

lemma backoff_call: "backoff (snd (call rid m p s)) = backoff s"
  by (simp add: call_def Let_def newPromise_def setTimeout_def eff_def split: option.splits)

lemma backoff_on: "backoff (on e c s) = backoff s"
  by (simp add: on_def Let_def fold_eff split: option.splits)

lemma backoff_off: "backoff (off e c s) = backoff s"
  by (simp add: off_def split: option.splits)

lemma backoff_ws_error: "backoff (ws_error k s) = backoff s"
  by (simp add: ws_error_def backoff_helpers split: option.splits)

lemma backoff_authenticate: "backoff (snd (authenticate tok rid s)) = backoff s"
  by (simp add: authenticate_def Let_def eff_def newPromise_def setTimeout_def wsSend_def
      split: option.splits sum.splits)

lemma backoff_onopen:
  "backoff (onopen tok rid rej s) = (0, 1000, maxReconnectAttempts s)"
proof -
  let ?s2 = "(eff (Console ''[Gateway] WebSocket connected'') s)
               \<lparr>reconnectAttempts := 0, reconnectDelay := 1000\<rparr>"
  have b: "backoff (snd (authenticate tok rid ?s2)) = (0, 1000, maxReconnectAttempts s)"
    by (simp add: backoff_authenticate) (simp add: backoff_def eff_def)
  show ?thesis
    using b
    by (cases "authenticate tok rid ?s2")
      (simp add: onopen_def Let_def backoff_helpers split: sum.splits)
qed

lemma backoff_ws_open:
  "backoff (ws_open tok rid k s) =
     (case map_of (sockets s) k of
        None \<Rightarrow> backoff s
      | Some w \<Rightarrow> if readyState w = CONNECTING then (0, 1000, maxReconnectAttempts s)
                  else backoff s)"
  by (simp add: ws_open_def backoff_onopen split: option.splits)

lemma backoff_onclose:
  "backoff (onclose s) =
     (if \<not> intentionalDisconnect s \<and> reconnectAttempts s < maxReconnectAttempts s
      then (Suc (reconnectAttempts s), min (reconnectDelay s * 2) 30000, maxReconnectAttempts s)
      else backoff s)"
  by (simp add: onclose_eq Let_def backoff_def emitEvent_keeps eff_def)

lemma timers_onclose:
  "timers (onclose s) =
     (if \<not> intentionalDisconnect s \<and> reconnectAttempts s < maxReconnectAttempts s
      then timers s @ [\<lparr>handle = nextHandle s, due = clock s + reconnectDelay s,
                        action = Reconnect\<rparr>]
      else timers s)"
  by (simp add: onclose_eq Let_def emitEvent_keeps eff_def)

lemma map_of_append_fresh:
  "k \<notin> fst ` set m \<Longrightarrow> map_of (m @ [(k, v)]) k = Some v"
  by (induction m) auto

lemma ws_open_no_token:
  assumes "ws s = Some k" and "map_of (sockets s) k = Some w" and "readyState w = CONNECTING"
  shows "ws_open None rid k s =
     s\<lparr>sockets := Map_set k (w\<lparr>readyState := CLOSING\<rparr>) (sockets s),
       reconnectAttempts := 0, reconnectDelay := 1000,
       effects := effects s @
         [Console ''[Gateway] WebSocket connected'',
          Console ''[Gateway] No auth token in localStorage'',
          Console ''[Gateway] Authentication failed:'']
         @ emitTrace (JStr ''auth_failed'')
             (JObj [(''error'', JError (JStr ''No auth token found. Please log in first.''))]) s
         @ [WsClose k,
            PromiseReject (connectReject w)
              (JError (JStr ''No auth token found. Please log in first.''))]\<rparr>"
proof -
  have m: "Map_set k b (Map_set k a m) = Map_set k b m" for a b :: websocket and m
    by (induction m) auto
  show ?thesis
    using assms
    by (simp add: ws_open_def onopen_def authenticate_def onopen_catch_def Let_def eff_def
        emitEvent_eq bufferAfter_def wsClose_def map_of_Map_set m emitTrace_def
        listenersFor_def)
qed

lemma authFails_round:
  assumes "ws s = Some k" and "map_of (sockets s) k = Some w" and "readyState w = CONNECTING"
    and "\<not> intentionalDisconnect s" and "maxReconnectAttempts s = 5" and "timers s = []"
    and "\<forall>x \<in> fst ` set (sockets s). x < nextSocket s"
  shows "timers (ws_close k (ws_open None rid k s)) =
           [\<lparr>handle = nextHandle s, due = clock s + 1000, action = Reconnect\<rparr>]"
    and "ws (authFails k s) = Some (nextSocket s)"
    and "map_of (sockets (authFails k s)) (nextSocket s) =
           Some \<lparr>readyState = CONNECTING, connectReject = nextPromise s\<rparr>"
    and "\<not> intentionalDisconnect (authFails k s)"
    and "maxReconnectAttempts (authFails k s) = 5"
    and "timers (authFails k s) = []"
    and "\<forall>x \<in> fst ` set (sockets (authFails k s)). x < nextSocket (authFails k s)"
    and "clock (authFails k s) = clock s + 1000"
    and "nextHandle (authFails k s) = Suc (nextHandle s)"
    and "nextSocket (authFails k s) = Suc (nextSocket s)"
    and "nextPromise (authFails k s) = Suc (nextPromise s)"
proof -
  let ?s1 = "ws_open None [] k s"
  note o = ws_open_no_token [OF assms(1-3)]
  have c: "ws_close k (ws_open None r k s) = onclose ((ws_open None r k s)
      \<lparr>sockets := Map_set k (w\<lparr>readyState := CLOSED\<rparr>) (sockets s)\<rparr>)" for r
  proof -
    have m: "Map_set k b (Map_set k a m) = Map_set k b m" for a b :: websocket and m
      by (induction m) auto
    show ?thesis
      by (simp add: ws_close_def o map_of_Map_set m)
  qed
  show 1: "timers (ws_close k (ws_open None rid k s)) =
           [\<lparr>handle = nextHandle s, due = clock s + 1000, action = Reconnect\<rparr>]"
    using assms(4-6) by (simp add: c timers_onclose) (simp add: o)
  let ?s2 = "ws_close k ?s1"
  have t2: "timers ?s2 = [\<lparr>handle = nextHandle s, due = clock s + 1000, action = Reconnect\<rparr>]"
    using assms(4-6) by (simp add: c timers_onclose) (simp add: o)
  have f2: "ws ?s2 = Some k" "connectionPromise ?s2 = None" "clock ?s2 = clock s"
    "nextSocket ?s2 = nextSocket s" "nextPromise ?s2 = nextPromise s"
    "sockets ?s2 = Map_set k (w\<lparr>readyState := CLOSED\<rparr>) (sockets s)"
    "intentionalDisconnect ?s2 = intentionalDisconnect s"
    "maxReconnectAttempts ?s2 = 5" "nextHandle ?s2 = Suc (nextHandle s)"
    using assms(1,4-6)
    by (simp_all add: c onclose_eq Let_def emitEvent_keeps eff_def) (simp_all add: o)
  have a: "authFails k s =
      (fire noThrow \<lparr>handle = nextHandle s, due = clock s + 1000, action = Reconnect\<rparr> ?s2)
        \<lparr>clock := clock s + 1000\<rparr>"
    by (simp add: authFails_def advance_def Let_def t2 f2)
  have nc: "\<not> isConnected (?s2\<lparr>timers := ts, clock := cl\<rparr>)" for ts cl
    by (simp add: isConnected_def f2 map_of_Map_set)
  have k: "fst ` set (Map_set k v (sockets s)) = fst ` set (sockets s)" for v
    using assms(2) by (auto simp: keys_Map_set dest: map_of_SomeD intro: rev_image_eqI)
  have "nextSocket s \<notin> fst ` set (Map_set k v (sockets s))" for v
    using assms(7) by (auto simp: k)
  then have fr: "map_of (Map_set k v (sockets s)) (nextSocket s) = None" for v
    by (simp add: map_of_None_keys)
  show "ws (authFails k s) = Some (nextSocket s)"
    and "map_of (sockets (authFails k s)) (nextSocket s) =
           Some \<lparr>readyState = CONNECTING, connectReject = nextPromise s\<rparr>"
    and "\<not> intentionalDisconnect (authFails k s)"
    and "maxReconnectAttempts (authFails k s) = 5"
    and "timers (authFails k s) = []"
    and "\<forall>x \<in> fst ` set (sockets (authFails k s)). x < nextSocket (authFails k s)"
    and "clock (authFails k s) = clock s + 1000"
    and "nextHandle (authFails k s) = Suc (nextHandle s)"
    and "nextSocket (authFails k s) = Suc (nextSocket s)"
    and "nextPromise (authFails k s) = Suc (nextPromise s)"
    using assms(4,7) nc fr
    by (simp_all add: a fire_def t2 Let_def connect_def newPromise_def noThrow_def f2
        map_add_def k less_Suc_eq)
qed

lemma authFailures_connecting:
  "ws (authFailures n connecting) = Some n
   \<and> map_of (sockets (authFailures n connecting)) n =
       Some \<lparr>readyState = CONNECTING, connectReject = n\<rparr>
   \<and> \<not> intentionalDisconnect (authFailures n connecting)
   \<and> maxReconnectAttempts (authFailures n connecting) = 5
   \<and> timers (authFailures n connecting) = []
   \<and> (\<forall>x \<in> fst ` set (sockets (authFailures n connecting)).
         x < nextSocket (authFailures n connecting))
   \<and> clock (authFailures n connecting) = 1000 * n
   \<and> nextHandle (authFailures n connecting) = n
   \<and> nextSocket (authFailures n connecting) = Suc n
   \<and> nextPromise (authFailures n connecting) = Suc n"
proof (induction n)
  case 0
  show ?case
    by (simp add: connecting_def fresh_def constructor_def connect_def isConnected_def
        noThrow_def newPromise_def Let_def)
next
  case (Suc n)
  let ?s = "authFailures n connecting"
  from Suc have w: "ws ?s = Some n"
    and s: "map_of (sockets ?s) n = Some \<lparr>readyState = CONNECTING, connectReject = n\<rparr>"
    and r: "readyState \<lparr>readyState = CONNECTING, connectReject = n\<rparr> = CONNECTING"
    and i: "\<not> intentionalDisconnect ?s" and m: "maxReconnectAttempts ?s = 5"
    and t: "timers ?s = []" and k: "\<forall>x \<in> fst ` set (sockets ?s). x < nextSocket ?s"
    by auto
  note a = authFails_round [OF w s r i m t k]
  from Suc have n: "clock ?s = 1000 * n" "nextHandle ?s = n" "nextSocket ?s = Suc n"
    "nextPromise ?s = Suc n"
    by simp_all
  have e: "authFailures (Suc n) connecting = authFails n ?s"
    by (simp add: w)
  show ?case
    unfolding e using a(2-11) by (simp add: n)
qed

lemma backoffOk_cong: "backoff s' = backoff s \<Longrightarrow> backoffOk s' = backoffOk s"
  by (simp add: backoff_def backoffOk_def)

lemma backoff_ws_close:
  "backoff (ws_close k s) =
     (case map_of (sockets s) k of
        None \<Rightarrow> backoff s
      | Some w \<Rightarrow>
          if readyState w \<noteq> CLOSED \<and> \<not> intentionalDisconnect s
             \<and> reconnectAttempts s < maxReconnectAttempts s
          then (Suc (reconnectAttempts s), min (reconnectDelay s * 2) 30000,
                maxReconnectAttempts s)
          else backoff s)"
  by (simp add: ws_close_def backoff_onclose split: option.splits)

lemma timers_ws_close:
  "timers (ws_close k s) =
     (case map_of (sockets s) k of
        None \<Rightarrow> timers s
      | Some w \<Rightarrow>
          if readyState w \<noteq> CLOSED \<and> \<not> intentionalDisconnect s
             \<and> reconnectAttempts s < maxReconnectAttempts s
          then timers s @ [\<lparr>handle = nextHandle s, due = clock s + reconnectDelay s,
                            action = Reconnect\<rparr>]
          else timers s)"
  by (simp add: ws_close_def timers_onclose split: option.splits)

lemma backoff_step:
  assumes "\<forall>tok r j. i \<noteq> SocketOpens tok r j" and "\<forall>j. i \<noteq> SocketCloses j"
  shows "backoff (step P W i s) = backoff s"
  using assms
  by (cases i)
    (simp_all add: backoff_helpers backoff_call backoff_on backoff_off backoff_ws_message
      backoff_ws_error backoff_advance)

lemma delay_doubles:
  "min (min (1000 * 2 ^ n) 30000 * 2) 30000 = min (1000 * 2 ^ Suc n) (30000::nat)"
proof -
  define a :: nat where "a = 1000 * 2 ^ n"
  have "1000 * 2 ^ Suc n = a * 2" by (simp add: a_def)
  moreover have "min (min a 30000 * 2) 30000 = min (a * 2) (30000::nat)"
    by (simp add: min_def)
  ultimately show ?thesis by (simp only: a_def [symmetric])
qed

lemma backoffOk_step: "backoffOk s \<Longrightarrow> backoffOk (step P W i s)"
proof -
  assume ok: "backoffOk s"
  show ?thesis
  proof (cases "backoff (step P W i s) = backoff s")
    case True
    from backoffOk_cong [OF this] ok show ?thesis by simp
  next
    case False
    from ok have m: "maxReconnectAttempts s = 5"
      and d: "reconnectDelay s = min (1000 * 2 ^ reconnectAttempts s) 30000"
      by (simp_all add: backoffOk_def)
    from False backoff_step [of i P W s]
    consider (opens) tok r k where "i = SocketOpens tok r k"
      | (closes) k where "i = SocketCloses k"
      by blast
    then show ?thesis
    proof cases
      case opens
      with False have "backoff (ws_open tok r k s) = (0, 1000, maxReconnectAttempts s)"
        by (simp add: backoff_ws_open split: option.splits if_splits)
      with m opens show ?thesis by (simp add: backoffOk_def backoff_def)
    next
      case closes
      with False have b: "backoff (ws_close k s) =
          (Suc (reconnectAttempts s), min (reconnectDelay s * 2) 30000,
           maxReconnectAttempts s)"
        and l: "reconnectAttempts s < maxReconnectAttempts s"
        by (auto simp: backoff_ws_close split: option.splits if_splits)
      from b have "reconnectAttempts (ws_close k s) = Suc (reconnectAttempts s)"
        and "reconnectDelay (ws_close k s) =
          min (min (1000 * 2 ^ reconnectAttempts s) 30000 * 2) 30000"
        and "maxReconnectAttempts (ws_close k s) = 5"
        by (simp_all add: backoff_def m d [symmetric])
      moreover from l m have "Suc (reconnectAttempts s) \<le> 5" by simp
      ultimately have "backoffOk (ws_close k s)"
        unfolding backoffOk_def by (simp only: delay_doubles simp_thms)
      with closes show ?thesis by simp
    qed
  qed
qed

lemma backoffOk_run: "backoffOk s \<Longrightarrow> backoffOk (run P W inputs s)"
  unfolding run_def by (induction inputs arbitrary: s) (simp_all add: backoffOk_step)

lemma backoffOk_constructor: "backoffOk (constructor u)"
  by (simp add: backoffOk_def constructor_def)

text \<open>
  The backoff in every state the client can reach.  The limit is 5, the counter is at
  most 5 and the delay is 1000 ms doubled once for each count and capped at 30000 ms.
  The closure of a socket while the flag \<open>intentionalDisconnect\<close> is unset and the
  counter is below 5 schedules one reconnect after the delay of that count and advances
  the counter: 1 s, 2 s, 4 s, 8 s, 16 s for the counts 0 to 4 (the cap is never reached).
  With the counter at 5 a closure schedules nothing and leaves the counter.  The counter
  and the delay return to 0 and 1 s when a connecting socket opens, before the handshake
  and whatever its outcome.  Nothing else changes them: not \<open>connect\<close> called by the
  application, not a handshake that succeeds or fails, not a message, an error or a
  timer.  The flag is set by \<open>disconnect\<close> and never cleared
  (\<open>intentionalDisconnect_run\<close> below).
\<close>

lemma backoff_reachable:
  "maxReconnectAttempts (run JSON_parse newWebSocket inputs (constructor u)) = 5
   \<and> reconnectAttempts (run JSON_parse newWebSocket inputs (constructor u)) \<le> 5
   \<and> reconnectDelay (run JSON_parse newWebSocket inputs (constructor u)) =
       min (1000 * 2 ^ reconnectAttempts (run JSON_parse newWebSocket inputs (constructor u)))
         30000
   \<and> (s = run JSON_parse newWebSocket inputs (constructor u) \<longrightarrow>
        (map_of (sockets s) k = Some w \<and> readyState w \<noteq> CLOSED
           \<and> \<not> intentionalDisconnect s \<and> reconnectAttempts s < 5 \<longrightarrow>
           timers (ws_close k s) =
             timers s @ [\<lparr>handle = nextHandle s,
                           due = clock s + 1000 * 2 ^ reconnectAttempts s,
                           action = Reconnect\<rparr>]
           \<and> reconnectAttempts (ws_close k s) = Suc (reconnectAttempts s))
        \<and> (reconnectAttempts s = 5 \<longrightarrow>
             timers (ws_close k s) = timers s \<and> backoff (ws_close k s) = backoff s)
        \<and> (map_of (sockets s) k = Some w \<and> readyState w = CONNECTING \<longrightarrow>
             reconnectAttempts (ws_open token rid k s) = 0
             \<and> reconnectDelay (ws_open token rid k s) = 1000)
        \<and> ((\<forall>tok r j. i \<noteq> SocketOpens tok r j) \<and> (\<forall>j. i \<noteq> SocketCloses j) \<longrightarrow>
             backoff (step JSON_parse newWebSocket i s) = backoff s))
   \<and> map (\<lambda>n. 1000 * 2 ^ n) [0..<5] = [1000, 2000, 4000, 8000, 16000::nat]"
proof -
  let ?s = "run JSON_parse newWebSocket inputs (constructor u)"
  have ok: "backoffOk ?s"
    by (rule backoffOk_run [OF backoffOk_constructor])
  then have m: "maxReconnectAttempts ?s = 5" and a: "reconnectAttempts ?s \<le> 5"
    and d: "reconnectDelay ?s = min (1000 * 2 ^ reconnectAttempts ?s) 30000"
    by (simp_all add: backoffOk_def)
  have small: "min (1000 * 2 ^ n) 30000 = (1000 * 2 ^ n :: nat)" if "n < 5" for n :: nat
  proof -
    from that have "n \<in> {0, 1, 2, 3, 4}" by auto
    then show ?thesis by auto
  qed
  have 1: "timers (ws_close k ?s) =
             timers ?s @ [\<lparr>handle = nextHandle ?s,
                           due = clock ?s + 1000 * 2 ^ reconnectAttempts ?s,
                           action = Reconnect\<rparr>]
           \<and> reconnectAttempts (ws_close k ?s) = Suc (reconnectAttempts ?s)"
    if "map_of (sockets ?s) k = Some w" "readyState w \<noteq> CLOSED"
      "\<not> intentionalDisconnect ?s" "reconnectAttempts ?s < 5"
  proof -
    have "backoff (ws_close k ?s) =
        (Suc (reconnectAttempts ?s), min (reconnectDelay ?s * 2) 30000,
         maxReconnectAttempts ?s)"
      using that m by (simp add: backoff_ws_close)
    then have "reconnectAttempts (ws_close k ?s) = Suc (reconnectAttempts ?s)"
      by (simp add: backoff_def)
    moreover have "timers (ws_close k ?s) =
        timers ?s @ [\<lparr>handle = nextHandle ?s, due = clock ?s + reconnectDelay ?s,
                      action = Reconnect\<rparr>]"
      using that m by (simp add: timers_ws_close)
    moreover have "reconnectDelay ?s = 1000 * 2 ^ reconnectAttempts ?s"
      using d small [OF that(4)] by simp
    ultimately show ?thesis by simp
  qed
  have 2: "timers (ws_close k ?s) = timers ?s \<and> backoff (ws_close k ?s) = backoff ?s"
    if "reconnectAttempts ?s = 5"
    using that m by (simp add: timers_ws_close backoff_ws_close split: option.splits)
  have 3: "reconnectAttempts (ws_open token rid k ?s) = 0
      \<and> reconnectDelay (ws_open token rid k ?s) = 1000"
    if "map_of (sockets ?s) k = Some w" "readyState w = CONNECTING"
  proof -
    have "backoff (ws_open token rid k ?s) = (0, 1000, maxReconnectAttempts ?s)"
      using that by (simp add: backoff_ws_open)
    then show ?thesis by (simp add: backoff_def)
  qed
  have 4: "backoff (step JSON_parse newWebSocket i ?s) = backoff ?s"
    if "\<forall>tok r j. i \<noteq> SocketOpens tok r j" "\<forall>j. i \<noteq> SocketCloses j"
    using that by (rule backoff_step)
  have 5: "map (\<lambda>n. 1000 * 2 ^ n) [0..<5] = [1000, 2000, 4000, 8000, 16000::nat]"
    by (simp add: upt_rec)
  have 1234: "(map_of (sockets s) k = Some w \<and> readyState w \<noteq> CLOSED
           \<and> \<not> intentionalDisconnect s \<and> reconnectAttempts s < 5 \<longrightarrow>
           timers (ws_close k s) =
             timers s @ [\<lparr>handle = nextHandle s,
                           due = clock s + 1000 * 2 ^ reconnectAttempts s,
                           action = Reconnect\<rparr>]
           \<and> reconnectAttempts (ws_close k s) = Suc (reconnectAttempts s))
        \<and> (reconnectAttempts s = 5 \<longrightarrow>
             timers (ws_close k s) = timers s \<and> backoff (ws_close k s) = backoff s)
        \<and> (map_of (sockets s) k = Some w \<and> readyState w = CONNECTING \<longrightarrow>
             reconnectAttempts (ws_open token rid k s) = 0
             \<and> reconnectDelay (ws_open token rid k s) = 1000)
        \<and> ((\<forall>tok r j. i \<noteq> SocketOpens tok r j) \<and> (\<forall>j. i \<noteq> SocketCloses j) \<longrightarrow>
             backoff (step JSON_parse newWebSocket i s) = backoff s)"
    if e: "s = run JSON_parse newWebSocket inputs (constructor u)"
    unfolding e
  proof (intro conjI impI)
    assume "map_of (sockets ?s) k = Some w \<and> readyState w \<noteq> CLOSED
           \<and> \<not> intentionalDisconnect ?s \<and> reconnectAttempts ?s < 5"
    then show "timers (ws_close k ?s) =
             timers ?s @ [\<lparr>handle = nextHandle ?s,
                           due = clock ?s + 1000 * 2 ^ reconnectAttempts ?s,
                           action = Reconnect\<rparr>]"
      and "reconnectAttempts (ws_close k ?s) = Suc (reconnectAttempts ?s)"
      using 1 by blast+
  next
    assume "reconnectAttempts ?s = 5"
    then show "timers (ws_close k ?s) = timers ?s"
      and "backoff (ws_close k ?s) = backoff ?s"
      using 2 by blast+
  next
    assume "map_of (sockets ?s) k = Some w \<and> readyState w = CONNECTING"
    then show "reconnectAttempts (ws_open token rid k ?s) = 0"
      and "reconnectDelay (ws_open token rid k ?s) = 1000"
      using 3 by blast+
  next
    assume "(\<forall>tok r j. i \<noteq> SocketOpens tok r j) \<and> (\<forall>j. i \<noteq> SocketCloses j)"
    then show "backoff (step JSON_parse newWebSocket i ?s) = backoff ?s"
      using 4 by blast
  qed
  show ?thesis
  proof (rule conjI [OF m], rule conjI [OF a], rule conjI [OF d], rule conjI [OF _ 5])
    show "s = ?s \<longrightarrow>
      (map_of (sockets s) k = Some w \<and> readyState w \<noteq> CLOSED
           \<and> \<not> intentionalDisconnect s \<and> reconnectAttempts s < 5 \<longrightarrow>
           timers (ws_close k s) =
             timers s @ [\<lparr>handle = nextHandle s,
                           due = clock s + 1000 * 2 ^ reconnectAttempts s,
                           action = Reconnect\<rparr>]
           \<and> reconnectAttempts (ws_close k s) = Suc (reconnectAttempts s))
        \<and> (reconnectAttempts s = 5 \<longrightarrow>
             timers (ws_close k s) = timers s \<and> backoff (ws_close k s) = backoff s)
        \<and> (map_of (sockets s) k = Some w \<and> readyState w = CONNECTING \<longrightarrow>
             reconnectAttempts (ws_open token rid k s) = 0
             \<and> reconnectDelay (ws_open token rid k s) = 1000)
        \<and> ((\<forall>tok r j. i \<noteq> SocketOpens tok r j) \<and> (\<forall>j. i \<noteq> SocketCloses j) \<longrightarrow>
             backoff (step JSON_parse newWebSocket i s) = backoff s)"
      using 1234 by (rule impI)
  qed
qed

lemma run_oneFailure:
  "sockets (run parseFrames noThrow oneFailure fresh) =
     [(0, \<lparr>readyState = CLOSED, connectReject = 0\<rparr>),
      (1, \<lparr>readyState = CONNECTING, connectReject = 1\<rparr>)]"
  "intentionalDisconnect (run parseFrames noThrow oneFailure fresh) = False"
  "reconnectAttempts (run parseFrames noThrow oneFailure fresh) = 1"
  "timers (run parseFrames noThrow oneFailure fresh) = []"
  "nextHandle (run parseFrames noThrow oneFailure fresh) = 1"
  "clock (run parseFrames noThrow oneFailure fresh) = 1000"
proof -
  have c: "snd (connect noThrow fresh) =
      \<lparr>url = ''ws://localhost:8080/ws'', ws = Some 0, pendingRequests = [],
       eventListeners = [], wildcardListeners = [], reconnectAttempts = 0,
       maxReconnectAttempts = 5, reconnectDelay = 1000, intentionalDisconnect = False,
       connectionPromise = Some 0, connectionResolve = Some 0, authenticated = False,
       eventBuffer = [],
       sockets = [(0, \<lparr>readyState = CONNECTING, connectReject = 0\<rparr>)],
       handshakes = [], awaiting = [], timers = [], clock = 0, nextHandle = 0,
       nextPromise = 1, nextSocket = 1, effects = []\<rparr>"
    by (simp add: connect_def isConnected_def fresh_def constructor_def noThrow_def
        newPromise_def Let_def)
  let ?c = "snd (connect noThrow fresh)"
  have f: "intentionalDisconnect ?c = False" "reconnectAttempts ?c = 0"
    "maxReconnectAttempts ?c = 5" "timers ?c = []" "nextHandle ?c = 0" "clock ?c = 0"
    "reconnectDelay ?c = 1000" "map_of (sockets ?c) 0 =
      Some \<lparr>readyState = CONNECTING, connectReject = 0\<rparr>"
    by (simp_all add: c)
  define d where "d = ws_close 0 (snd (connect noThrow fresh))"
  have d: "d = onclose (?c\<lparr>sockets := [(0, \<lparr>readyState = CLOSED, connectReject = 0\<rparr>)]\<rparr>)"
    unfolding d_def by (simp add: ws_close_def f) (simp add: c)
  have g: "timers d = [\<lparr>handle = 0, due = 1000, action = Reconnect\<rparr>]"
    "clock d = 0" "intentionalDisconnect d = False" "reconnectAttempts d = 1"
    "nextHandle d = 1" "connectionPromise d = None" "ws d = Some 0"
    "sockets d = [(0, \<lparr>readyState = CLOSED, connectReject = 0\<rparr>)]"
    "nextSocket d = 1" "nextPromise d = 1"
    by (simp_all add: d onclose_eq Let_def f emitEvent_keeps eff_def)
      (simp_all add: c)
  have r: "run parseFrames noThrow oneFailure fresh = advance noThrow 1000 d"
    by (simp add: run_def oneFailure_def d_def)
  show "sockets (run parseFrames noThrow oneFailure fresh) =
     [(0, \<lparr>readyState = CLOSED, connectReject = 0\<rparr>),
      (1, \<lparr>readyState = CONNECTING, connectReject = 1\<rparr>)]"
    "intentionalDisconnect (run parseFrames noThrow oneFailure fresh) = False"
    "reconnectAttempts (run parseFrames noThrow oneFailure fresh) = 1"
    "timers (run parseFrames noThrow oneFailure fresh) = []"
    "nextHandle (run parseFrames noThrow oneFailure fresh) = 1"
    "clock (run parseFrames noThrow oneFailure fresh) = 1000"
    by (simp_all add: r advance_def Let_def g fire_def connect_def isConnected_def
        noThrow_def newPromise_def)
qed

lemma backoff_reachable_example:
  "reconnectAttempts (run parseFrames noThrow oneFailure fresh) = 1
   \<and> reconnectDelay (run parseFrames noThrow oneFailure fresh) = 2000
   \<and> timers (ws_close 1 (run parseFrames noThrow oneFailure fresh)) =
       [\<lparr>handle = 1, due = 3000, action = Reconnect\<rparr>]
   \<and> reconnectAttempts (ws_close 1 (run parseFrames noThrow oneFailure fresh)) = 2
   \<and> reconnectAttempts (ws_open None [] 1 (run parseFrames noThrow oneFailure fresh)) = 0
   \<and> reconnectDelay (ws_open None [] 1 (run parseFrames noThrow oneFailure fresh)) = 1000
   \<and> backoff (step parseFrames noThrow AppConnect (run parseFrames noThrow oneFailure fresh))
       = backoff (run parseFrames noThrow oneFailure fresh)"
proof -
  let ?s = "run parseFrames noThrow oneFailure fresh"
  note c = backoff_reachable [of parseFrames noThrow oneFailure "''ws://localhost:8080/ws''" ?s 1
      "\<lparr>readyState = CONNECTING, connectReject = 1\<rparr>" None "[]" AppConnect,
      folded fresh_def]
  from c have d: "reconnectDelay ?s = 2000"
    by (simp add: run_oneFailure)
  from c [THEN conjunct2, THEN conjunct2, THEN conjunct2, THEN conjunct1, THEN mp, OF refl]
  have "timers (ws_close 1 ?s) = [\<lparr>handle = 1, due = 3000, action = Reconnect\<rparr>]
      \<and> reconnectAttempts (ws_close 1 ?s) = 2"
    and "reconnectAttempts (ws_open None [] 1 ?s) = 0
      \<and> reconnectDelay (ws_open None [] 1 ?s) = 1000"
    and "backoff (step parseFrames noThrow AppConnect ?s) = backoff ?s"
    by (simp_all add: run_oneFailure)
  with d show ?thesis by (simp add: run_oneFailure)
qed

lemma refused_round:
  assumes "ws s = Some k" and "map_of (sockets s) k = Some w" and "readyState w = CONNECTING"
    and "\<not> intentionalDisconnect s" and "maxReconnectAttempts s = 5"
    and "reconnectAttempts s < 5" and "timers s = []"
    and "\<forall>x \<in> fst ` set (sockets s). x < nextSocket s"
  shows "timers (ws_close k s) =
           [\<lparr>handle = nextHandle s, due = clock s + reconnectDelay s, action = Reconnect\<rparr>]"
    and "ws (refused k s) = Some (nextSocket s)"
    and "map_of (sockets (refused k s)) (nextSocket s) =
           Some \<lparr>readyState = CONNECTING, connectReject = nextPromise s\<rparr>"
    and "\<not> intentionalDisconnect (refused k s)"
    and "maxReconnectAttempts (refused k s) = 5"
    and "timers (refused k s) = []"
    and "\<forall>x \<in> fst ` set (sockets (refused k s)). x < nextSocket (refused k s)"
    and "clock (refused k s) = clock s + reconnectDelay s"
    and "nextHandle (refused k s) = Suc (nextHandle s)"
    and "nextSocket (refused k s) = Suc (nextSocket s)"
    and "nextPromise (refused k s) = Suc (nextPromise s)"
    and "reconnectAttempts (refused k s) = Suc (reconnectAttempts s)"
    and "reconnectDelay (refused k s) = min (reconnectDelay s * 2) 30000"
proof -
  let ?s2 = "ws_close k s"
  have c: "?s2 = onclose (s\<lparr>sockets := Map_set k (w\<lparr>readyState := CLOSED\<rparr>) (sockets s)\<rparr>)"
    using assms(2,3) by (simp add: ws_close_def)
  show t2: "timers ?s2 =
      [\<lparr>handle = nextHandle s, due = clock s + reconnectDelay s, action = Reconnect\<rparr>]"
    using assms(4-7) by (simp add: c timers_onclose)
  have f2: "ws ?s2 = Some k" "connectionPromise ?s2 = None" "clock ?s2 = clock s"
    "nextSocket ?s2 = nextSocket s" "nextPromise ?s2 = nextPromise s"
    "sockets ?s2 = Map_set k (w\<lparr>readyState := CLOSED\<rparr>) (sockets s)"
    "intentionalDisconnect ?s2 = intentionalDisconnect s"
    "maxReconnectAttempts ?s2 = 5" "nextHandle ?s2 = Suc (nextHandle s)"
    "reconnectAttempts ?s2 = Suc (reconnectAttempts s)"
    "reconnectDelay ?s2 = min (reconnectDelay s * 2) 30000"
    using assms(1,4-7)
    by (simp_all add: c onclose_eq Let_def emitEvent_keeps eff_def)
  have a: "refused k s =
      (fire noThrow \<lparr>handle = nextHandle s, due = clock s + reconnectDelay s,
                      action = Reconnect\<rparr> ?s2)
        \<lparr>clock := clock s + reconnectDelay s\<rparr>"
    by (simp add: refused_def advance_def Let_def t2 f2)
  have nc: "\<not> isConnected (?s2\<lparr>timers := ts, clock := cl\<rparr>)" for ts cl
    by (simp add: isConnected_def f2 map_of_Map_set)
  have k: "fst ` set (Map_set k v (sockets s)) = fst ` set (sockets s)" for v
    using assms(2) by (auto simp: keys_Map_set dest: map_of_SomeD intro: rev_image_eqI)
  have "nextSocket s \<notin> fst ` set (Map_set k v (sockets s))" for v
    using assms(8) by (auto simp: k)
  then have fr: "map_of (Map_set k v (sockets s)) (nextSocket s) = None" for v
    by (simp add: map_of_None_keys)
  show "ws (refused k s) = Some (nextSocket s)"
    and "map_of (sockets (refused k s)) (nextSocket s) =
           Some \<lparr>readyState = CONNECTING, connectReject = nextPromise s\<rparr>"
    and "\<not> intentionalDisconnect (refused k s)"
    and "maxReconnectAttempts (refused k s) = 5"
    and "timers (refused k s) = []"
    and "\<forall>x \<in> fst ` set (sockets (refused k s)). x < nextSocket (refused k s)"
    and "clock (refused k s) = clock s + reconnectDelay s"
    and "nextHandle (refused k s) = Suc (nextHandle s)"
    and "nextSocket (refused k s) = Suc (nextSocket s)"
    and "nextPromise (refused k s) = Suc (nextPromise s)"
    and "reconnectAttempts (refused k s) = Suc (reconnectAttempts s)"
    and "reconnectDelay (refused k s) = min (reconnectDelay s * 2) 30000"
    using assms(4,8) nc fr
    by (simp_all add: a fire_def t2 Let_def connect_def newPromise_def noThrow_def f2
        map_add_def k less_Suc_eq)
qed

lemma refused_stops:
  assumes "map_of (sockets s) k = Some w" and "readyState w = CONNECTING"
    and "maxReconnectAttempts s = 5" and "reconnectAttempts s = 5" and "timers s = []"
  shows "timers (ws_close k s) = []"
    and "ws (refused k s) = ws s"
    and "nextSocket (refused k s) = nextSocket s"
    and "map_of (sockets (refused k s)) k = Some (w\<lparr>readyState := CLOSED\<rparr>)"
proof -
  let ?s2 = "ws_close k s"
  have c: "?s2 = onclose (s\<lparr>sockets := Map_set k (w\<lparr>readyState := CLOSED\<rparr>) (sockets s)\<rparr>)"
    using assms(1,2) by (simp add: ws_close_def)
  show t2: "timers ?s2 = []"
    using assms(3-5) by (simp add: c timers_onclose)
  have f2: "ws ?s2 = ws s" "nextSocket ?s2 = nextSocket s"
    "sockets ?s2 = Map_set k (w\<lparr>readyState := CLOSED\<rparr>) (sockets s)"
    using assms(3-5)
    by (simp_all add: c onclose_eq Let_def emitEvent_keeps eff_def)
  show "ws (refused k s) = ws s"
    and "nextSocket (refused k s) = nextSocket s"
    and "map_of (sockets (refused k s)) k = Some (w\<lparr>readyState := CLOSED\<rparr>)"
    by (simp_all add: refused_def advance_def Let_def t2 f2 map_of_Map_set)
qed

lemma delay_small: "n \<le> 4 \<Longrightarrow> min (1000 * 2 ^ n) 30000 = (1000 * 2 ^ n :: nat)"
proof -
  assume "n \<le> 4"
  then have "n \<in> {0, 1, 2, 3, 4}" by auto
  then show ?thesis by auto
qed

lemma refusals_connecting:
  "n \<le> 5 \<Longrightarrow>
   ws (refusals n connecting) = Some n
   \<and> map_of (sockets (refusals n connecting)) n =
       Some \<lparr>readyState = CONNECTING, connectReject = n\<rparr>
   \<and> \<not> intentionalDisconnect (refusals n connecting)
   \<and> maxReconnectAttempts (refusals n connecting) = 5
   \<and> timers (refusals n connecting) = []
   \<and> (\<forall>x \<in> fst ` set (sockets (refusals n connecting)).
         x < nextSocket (refusals n connecting))
   \<and> clock (refusals n connecting) = 1000 * (2 ^ n - 1)
   \<and> nextHandle (refusals n connecting) = n
   \<and> nextSocket (refusals n connecting) = Suc n
   \<and> nextPromise (refusals n connecting) = Suc n
   \<and> reconnectAttempts (refusals n connecting) = n
   \<and> reconnectDelay (refusals n connecting) = min (1000 * 2 ^ n) 30000"
proof (induction n)
  case 0
  show ?case
    by (simp add: connecting_def fresh_def constructor_def connect_def isConnected_def
        noThrow_def newPromise_def Let_def)
next
  case (Suc n)
  let ?s = "refusals n connecting"
  from Suc.prems have n4: "n \<le> 4" by simp
  with Suc.IH have w: "ws ?s = Some n"
    and s: "map_of (sockets ?s) n = Some \<lparr>readyState = CONNECTING, connectReject = n\<rparr>"
    and r: "readyState \<lparr>readyState = CONNECTING, connectReject = n\<rparr> = CONNECTING"
    and i: "\<not> intentionalDisconnect ?s" and m: "maxReconnectAttempts ?s = 5"
    and t: "timers ?s = []" and k: "\<forall>x \<in> fst ` set (sockets ?s). x < nextSocket ?s"
    and a: "reconnectAttempts ?s < 5"
    by auto
  note f = refused_round [OF w s r i m a t k]
  from Suc.IH n4 have n: "clock ?s = 1000 * (2 ^ n - 1)" "nextHandle ?s = n"
    "nextSocket ?s = Suc n" "nextPromise ?s = Suc n" "reconnectAttempts ?s = n"
    "reconnectDelay ?s = 1000 * 2 ^ n"
    by (simp_all add: delay_small)
  have e: "refusals (Suc n) connecting = refused n ?s"
    by (simp add: w)
  have d: "min (1000 * 2 ^ n * 2) 30000 = min (1000 * 2 ^ Suc n) (30000::nat)"
    by simp
  have c: "1000 * (2 ^ n - 1) + 1000 * 2 ^ n = 1000 * (2 ^ Suc n - 1 :: nat)"
    by (simp add: algebra_simps)
  show ?case
    unfolding e using f(2-13) by (simp only: n d c simp_thms)
qed

lemma refusals_dues:
  "n < 5 \<Longrightarrow>
   timers (ws_close n (refusals n connecting)) =
     [\<lparr>handle = n, due = 1000 * (2 ^ n - 1) + 1000 * 2 ^ n, action = Reconnect\<rparr>]"
proof -
  assume n: "n < 5"
  let ?s = "refusals n connecting"
  from n refusals_connecting [of n] have w: "ws ?s = Some n"
    and s: "map_of (sockets ?s) n = Some \<lparr>readyState = CONNECTING, connectReject = n\<rparr>"
    and r: "readyState \<lparr>readyState = CONNECTING, connectReject = n\<rparr> = CONNECTING"
    and i: "\<not> intentionalDisconnect ?s" and m: "maxReconnectAttempts ?s = 5"
    and t: "timers ?s = []" and k: "\<forall>x \<in> fst ` set (sockets ?s). x < nextSocket ?s"
    and a: "reconnectAttempts ?s < 5"
    and c: "clock ?s = 1000 * (2 ^ n - 1)" "nextHandle ?s = n"
    and d: "reconnectDelay ?s = min (1000 * 2 ^ n) 30000"
    by auto
  from n have "n \<le> 4" by simp
  with d have "reconnectDelay ?s = 1000 * 2 ^ n" by (simp add: delay_small)
  with refused_round(1) [OF w s r i m a t k] c show ?thesis by simp
qed

text \<open>
  C5.  The claim holds of attempts that fail before the transport opens and fails of
  attempts that fail in the handshake.  When each socket is closed while it is still
  connecting, the closures schedule the reconnects 1 s, 2 s, 4 s, 8 s and 16 s later (due
  at 1000, 3000, 7000, 15000 and 31000 ms on the clock), and the sixth closure schedules
  nothing: socket 5 stays closed and no seventh socket is made.  When instead each
  socket opens and the handshake fails (the store holds no token), \<open>onopen\<close> has reset
  the counter and the delay before \<open>authenticate\<close> ran, so the closure that follows finds
  the counter at 0.  Whatever the number \<open>n\<close> of such attempts that came before, the
  closure of the next one schedules a reconnect 1 s later, and when the second has
  passed the next socket is connecting: the delay never doubles and the limit of 5
  attempts is never reached.
\<close>

theorem C5_handshake_failures_never_back_off:
  "map (\<lambda>n. timers (ws_close n (refusals n connecting))) [0..<6] =
     [[\<lparr>handle = 0, due = 1000, action = Reconnect\<rparr>],
      [\<lparr>handle = 1, due = 3000, action = Reconnect\<rparr>],
      [\<lparr>handle = 2, due = 7000, action = Reconnect\<rparr>],
      [\<lparr>handle = 3, due = 15000, action = Reconnect\<rparr>],
      [\<lparr>handle = 4, due = 31000, action = Reconnect\<rparr>],
      []]
   \<and> map (\<lambda>n. clock (refusals n connecting)) [0..<6] = [0, 1000, 3000, 7000, 15000, 31000]
   \<and> ws (refusals 6 connecting) = Some 5
   \<and> map_of (sockets (refusals 6 connecting)) 5 =
       Some \<lparr>readyState = CLOSED, connectReject = 5\<rparr>
   \<and> nextSocket (refusals 6 connecting) = 6
   \<and> clock (authFailures n connecting) = 1000 * n
   \<and> backoff (ws_open None [] n (authFailures n connecting)) = (0, 1000, 5)
   \<and> timers (ws_close n (ws_open None [] n (authFailures n connecting))) =
       [\<lparr>handle = n, due = 1000 * n + 1000, action = Reconnect\<rparr>]
   \<and> ws (authFailures (Suc n) connecting) = Some (Suc n)
   \<and> map_of (sockets (authFailures (Suc n) connecting)) (Suc n) =
       Some \<lparr>readyState = CONNECTING, connectReject = Suc n\<rparr>"
proof -
  have u: "[0..<6] = [0, 1, 2, 3, 4, 5]"
    by (simp add: upt_rec)
  from refusals_connecting [of 5] have 5: "ws (refusals 5 connecting) = Some 5"
    "map_of (sockets (refusals 5 connecting)) 5 =
       Some \<lparr>readyState = CONNECTING, connectReject = 5\<rparr>"
    "readyState \<lparr>readyState = CONNECTING, connectReject = 5\<rparr> = CONNECTING"
    "maxReconnectAttempts (refusals 5 connecting) = 5"
    "reconnectAttempts (refusals 5 connecting) = 5"
    "timers (refusals 5 connecting) = []"
    "nextSocket (refusals 5 connecting) = 6"
    by simp_all
  note st = refused_stops [OF 5(2-6)]
  have 6: "refusals 6 connecting = refused 5 (refusals 5 connecting)"
    using 5(1) by (simp add: eval_nat_numeral)
  have a: "map (\<lambda>n. timers (ws_close n (refusals n connecting))) [0..<6] =
     [[\<lparr>handle = 0, due = 1000, action = Reconnect\<rparr>],
      [\<lparr>handle = 1, due = 3000, action = Reconnect\<rparr>],
      [\<lparr>handle = 2, due = 7000, action = Reconnect\<rparr>],
      [\<lparr>handle = 3, due = 15000, action = Reconnect\<rparr>],
      [\<lparr>handle = 4, due = 31000, action = Reconnect\<rparr>],
      []]"
    using refusals_dues [of 0] refusals_dues [of 1] refusals_dues [of 2] refusals_dues [of 3]
      refusals_dues [of 4] st(1)
    by (simp add: u)
  have b: "map (\<lambda>n. clock (refusals n connecting)) [0..<6] =
      [0, 1000, 3000, 7000, 15000, 31000]"
    using refusals_connecting [of 0] refusals_connecting [of 1] refusals_connecting [of 2]
      refusals_connecting [of 3] refusals_connecting [of 4] refusals_connecting [of 5]
    by (simp add: u)
  have c: "ws (refusals 6 connecting) = Some 5"
    "map_of (sockets (refusals 6 connecting)) 5 =
       Some \<lparr>readyState = CLOSED, connectReject = 5\<rparr>"
    "nextSocket (refusals 6 connecting) = 6"
    using st(2-4) 5 by (simp_all add: 6)
  have r: "timers (ws_close n (ws_open None [] n (authFailures n connecting))) =
      [\<lparr>handle = n, due = 1000 * n + 1000, action = Reconnect\<rparr>]"
  proof -
    let ?s = "authFailures n connecting"
    from authFailures_connecting [of n] have w: "ws ?s = Some n"
      and s: "map_of (sockets ?s) n = Some \<lparr>readyState = CONNECTING, connectReject = n\<rparr>"
      and r: "readyState \<lparr>readyState = CONNECTING, connectReject = n\<rparr> = CONNECTING"
      and i: "\<not> intentionalDisconnect ?s" and m: "maxReconnectAttempts ?s = 5"
      and t: "timers ?s = []" and k: "\<forall>x \<in> fst ` set (sockets ?s). x < nextSocket ?s"
      and n: "clock ?s = 1000 * n" "nextHandle ?s = n"
      by auto
    from authFails_round(1) [OF w s r i m t k, of "[]"] show ?thesis
      by (simp add: n)
  qed
  from authFailures_connecting [of n] have d: "clock (authFailures n connecting) = 1000 * n"
    by simp
  from authFailures_connecting [of n]
  have o: "backoff (ws_open None [] n (authFailures n connecting)) = (0, 1000, 5)"
    by (simp add: backoff_ws_open)
  from authFailures_connecting [of "Suc n"]
  have e: "ws (authFailures (Suc n) connecting) = Some (Suc n)"
    "map_of (sockets (authFailures (Suc n) connecting)) (Suc n) =
       Some \<lparr>readyState = CONNECTING, connectReject = Suc n\<rparr>"
    by blast+
  show ?thesis
    using a b c r d o e by (simp only: simp_thms)
qed

lemma inFlight_eq:
  "inFlight =
     ready\<lparr>pendingRequests :=
              [(''a'', \<lparr>resolve = 2, reject = 2, timeout = 1\<rparr>),
               (''b'', \<lparr>resolve = 3, reject = 3, timeout = 2\<rparr>)],
            timers :=
              [\<lparr>handle = 1, due = 30000, action = RpcTimeout ''a'' 2\<rparr>,
               \<lparr>handle = 2, due = 30000, action = RpcTimeout ''b'' 3\<rparr>],
            nextHandle := 3, nextPromise := 4,
            effects := effects ready @
              [WsSend 0 (rpcRequest ''a'' ''getBalance'' (JObj [(''addr'', JStr ''0x1'')])),
               WsSend 0 (rpcRequest ''b'' ''getPrice'' (JObj [(''sym'', JStr ''ETH'')]))]\<rparr>"
  by (simp add: inFlight_def ready_eq opened_eq call_def wsOpen_def newPromise_def
      setTimeout_def eff_def Let_def)

lemma ws_close_keeps:
  "pendingRequests (ws_close k s) = pendingRequests s"
  "settlements (effects (ws_close k s)) = settlements (effects s)"
  "eventBuffer (ws_close k s) = eventBuffer s"
  "intentionalDisconnect (ws_close k s) = intentionalDisconnect s"
  by (simp_all add: ws_close_def onclose_keeps split: option.splits)

text \<open>
  The flag \<open>intentionalDisconnect\<close> is set by \<open>disconnect\<close> and by nothing else, and
  nothing clears it: after a run it is set exactly when it was set before or the
  application has called \<open>disconnect\<close> during the run.
\<close>

lemma intentionalDisconnect_handleMessage:
  "intentionalDisconnect (handleMessage P d s) = intentionalDisconnect s"
  by (simp add: handleMessage_def Let_def eff_def clearTimeout_def emitEvent_keeps
      split: option.splits sum.splits prod.splits)

lemma intentionalDisconnect_handleAuthResponse:
  "intentionalDisconnect (handleAuthResponse P h d s) = intentionalDisconnect s"
  by (simp add: handleAuthResponse_def Let_def clearTimeout_def settleAuth_keeps
      split: option.splits sum.splits)

lemma intentionalDisconnect_ws_message: "intentionalDisconnect (ws_message P k d s) = intentionalDisconnect s"
proof -
  have "intentionalDisconnect (fold (\<lambda>h st. if h \<in> set (listenersOn k st)
                      then handleAuthResponse P h d st else st) hs st) = intentionalDisconnect st"
    for hs st
    by (rule fold_keeps) (simp add: intentionalDisconnect_handleAuthResponse)
  then show ?thesis
    by (simp add: ws_message_def intentionalDisconnect_handleMessage split: option.splits)
qed

lemma intentionalDisconnect_fire: "intentionalDisconnect (fire W t s) = intentionalDisconnect s"
  by (cases "action t") (simp_all add: fire_def Let_def eff_def connect_keeps settleAuth_keeps)

lemma intentionalDisconnect_advance: "intentionalDisconnect (advance W ms s) = intentionalDisconnect s"
  by (simp add: advance_def Let_def fold_keeps [where f = intentionalDisconnect] intentionalDisconnect_fire)

lemma intentionalDisconnect_call: "intentionalDisconnect (snd (call rid m p s)) = intentionalDisconnect s"
  by (simp add: call_def Let_def newPromise_def setTimeout_def eff_def split: option.splits)

lemma intentionalDisconnect_on: "intentionalDisconnect (on e c s) = intentionalDisconnect s"
  by (simp add: on_def Let_def fold_eff split: option.splits)

lemma intentionalDisconnect_off: "intentionalDisconnect (off e c s) = intentionalDisconnect s"
  by (simp add: off_def split: option.splits)

lemma intentionalDisconnect_ws_error: "intentionalDisconnect (ws_error k s) = intentionalDisconnect s"
  by (simp add: ws_error_def onerror_keeps split: option.splits)

lemma intentionalDisconnect_authenticate:
  "intentionalDisconnect (snd (authenticate tok rid s)) = intentionalDisconnect s"
  by (simp add: authenticate_def Let_def eff_def newPromise_def setTimeout_def wsSend_def
      split: option.splits sum.splits)

lemma intentionalDisconnect_onopen: "intentionalDisconnect (onopen tok rid rej s) = intentionalDisconnect s"
proof -
  let ?s2 = "(eff (Console ''[Gateway] WebSocket connected'') s)
               \<lparr>reconnectAttempts := 0, reconnectDelay := 1000\<rparr>"
  have b: "intentionalDisconnect (snd (authenticate tok rid ?s2)) = intentionalDisconnect s"
    by (simp add: intentionalDisconnect_authenticate) (simp add: eff_def)
  show ?thesis
    using b
    by (cases "authenticate tok rid ?s2")
      (simp add: onopen_def Let_def onopen_catch_keeps split: sum.splits)
qed

lemma intentionalDisconnect_ws_open: "intentionalDisconnect (ws_open tok rid k s) = intentionalDisconnect s"
  by (simp add: ws_open_def intentionalDisconnect_onopen split: option.splits)

lemma intentionalDisconnect_step:
  "intentionalDisconnect (step P W i s) = (intentionalDisconnect s \<or> i = AppDisconnect)"
  by (cases i)
    (simp_all add: connect_keeps disconnect_fields intentionalDisconnect_call intentionalDisconnect_on intentionalDisconnect_off intentionalDisconnect_ws_open
      intentionalDisconnect_ws_message intentionalDisconnect_ws_error ws_close_keeps intentionalDisconnect_advance)

lemma intentionalDisconnect_run:
  "intentionalDisconnect (run P W inputs s) =
     (intentionalDisconnect s \<or> AppDisconnect \<in> set inputs)"
  unfolding run_def by (induction inputs arbitrary: s) (auto simp: intentionalDisconnect_step)

text \<open>
  What an unexpected closure and an explicit \<open>disconnect\<close> do to pending calls.  A
  closure settles nothing and leaves every entry and every timer in place; the entries
  go when their timers fire, as in C2.  \<open>disconnect\<close> rejects every pending call with
  \<open>Connection closed\<close>, in the order of the table, clears their timers, the table and the
  buffer, and marks the closure as intended, so that the closure that follows schedules
  no reconnect.
\<close>

lemma closure_keeps_disconnect_rejects:
  "pendingRequests (ws_close k s) = pendingRequests s
   \<and> settlements (effects (ws_close k s)) = settlements (effects s)
   \<and> set (timers s) \<subseteq> set (timers (ws_close k s))
   \<and> settlements (effects (disconnect s)) =
       settlements (effects s)
       @ map (\<lambda>p. PromiseReject (reject (snd p)) (JError (JStr ''Connection closed'')))
           (pendingRequests s)
   \<and> pendingRequests (disconnect s) = []
   \<and> eventBuffer (disconnect s) = []
   \<and> intentionalDisconnect (disconnect s)
   \<and> timers (disconnect s) =
       filter (\<lambda>t. handle t \<notin> (\<lambda>p. timeout (snd p)) ` set (pendingRequests s)) (timers s)
   \<and> timers (ws_close k (disconnect s)) = timers (disconnect s)"
proof -
  have 1: "set (timers s) \<subseteq> set (timers (ws_close k s))"
    by (auto simp: timers_ws_close split: option.splits)
  have r: "settlements (map (\<lambda>p. PromiseReject (f p) e) ps) = map (\<lambda>p. PromiseReject (f p) e) ps"
    for f :: "string \<times> pending_request \<Rightarrow> nat" and e ps
    by (induction ps) simp_all
  let ?s1 = "s\<lparr>intentionalDisconnect := True, authenticated := False\<rparr>"
  have 2: "settlements (effects (disconnect s)) =
       settlements (effects s)
       @ map (\<lambda>p. PromiseReject (reject (snd p)) (JError (JStr ''Connection closed'')))
           (pendingRequests s)"
    and 3: "timers (disconnect s) =
       filter (\<lambda>t. handle t \<notin> (\<lambda>p. timeout (snd p)) ` set (pendingRequests s)) (timers s)"
    using wsClose_eq [of "the (ws s)" ?s1]
    by (cases "ws s"; auto simp: disconnect_def Let_def fold_rejectPending settlements_append r)+
  have 4: "timers (ws_close k (disconnect s)) = timers (disconnect s)"
    by (simp add: timers_ws_close disconnect_fields split: option.splits)
  show ?thesis
    using 1 2 3 4 by (simp add: ws_close_keeps disconnect_fields)
qed

text \<open>
  C7.  The first half of the claim and most of the second hold on this run: the socket
  of a ready client with two calls in flight is closed by the peer, then the
  application calls \<open>disconnect\<close>.  The closure leaves both calls pending and schedules a
  reconnect one second later; \<open>disconnect\<close> rejects both calls with \<open>Connection closed\<close> and
  empties the table.  But \<open>disconnect\<close> does not cancel the reconnect that the closure
  scheduled: its timer is the one timer left, and when the second has passed it fires,
  \<open>connect\<close> runs and a new socket is connecting, although the disconnect was intended.
\<close>

theorem C7_reconnect_after_disconnect:
  "pendingRequests (ws_close 0 inFlight) = pendingRequests inFlight
   \<and> settlements (effects (ws_close 0 inFlight)) = settlements (effects inFlight)
   \<and> timers (ws_close 0 inFlight) =
       timers inFlight @ [\<lparr>handle = 3, due = 1000, action = Reconnect\<rparr>]
   \<and> intentionalDisconnect (disconnect (ws_close 0 inFlight))
   \<and> pendingRequests (disconnect (ws_close 0 inFlight)) = []
   \<and> settlements (effects (disconnect (ws_close 0 inFlight))) =
       settlements (effects inFlight)
       @ [PromiseReject 2 (JError (JStr ''Connection closed'')),
          PromiseReject 3 (JError (JStr ''Connection closed''))]
   \<and> timers (disconnect (ws_close 0 inFlight)) =
       [\<lparr>handle = 3, due = 1000, action = Reconnect\<rparr>]
   \<and> ws (advance noThrow 1000 (disconnect (ws_close 0 inFlight))) = Some 1
   \<and> map_of (sockets (advance noThrow 1000 (disconnect (ws_close 0 inFlight)))) 1 =
       Some \<lparr>readyState = CONNECTING, connectReject = 4\<rparr>"
proof -
  define c where "c = ws_close 0 inFlight"
  define d where "d = disconnect c"
  have i: "map_of (sockets inFlight) 0 = Some \<lparr>readyState = OPEN, connectReject = 0\<rparr>"
    "intentionalDisconnect inFlight = False" "reconnectAttempts inFlight = 0"
    "maxReconnectAttempts inFlight = 5" "nextHandle inFlight = 3" "clock inFlight = 0"
    "reconnectDelay inFlight = 1000"
    "pendingRequests inFlight =
       [(''a'', \<lparr>resolve = 2, reject = 2, timeout = 1\<rparr>),
        (''b'', \<lparr>resolve = 3, reject = 3, timeout = 2\<rparr>)]"
    "timers inFlight =
       [\<lparr>handle = 1, due = 30000, action = RpcTimeout ''a'' 2\<rparr>,
        \<lparr>handle = 2, due = 30000, action = RpcTimeout ''b'' 3\<rparr>]"
    "nextPromise inFlight = 4" "nextSocket inFlight = 1" "ws inFlight = Some 0"
    "url inFlight = ''ws://localhost:8080/ws''"
    by (simp_all add: inFlight_eq ready_eq opened_eq)
  have c: "pendingRequests c = pendingRequests inFlight"
    "settlements (effects c) = settlements (effects inFlight)"
    "timers c = timers inFlight @ [\<lparr>handle = 3, due = 1000, action = Reconnect\<rparr>]"
    by (simp_all add: c_def ws_close_keeps timers_ws_close i)
  have c': "ws c = Some 0" "nextPromise c = 4" "nextSocket c = 1" "clock c = 0"
    "sockets c = [(0, \<lparr>readyState = CLOSED, connectReject = 0\<rparr>)]"
    "url c = ''ws://localhost:8080/ws''"
    by (simp_all add: c_def ws_close_def i onclose_eq Let_def emitEvent_keeps eff_def)
      (simp_all add: inFlight_eq ready_eq opened_eq)
  note g = closure_keeps_disconnect_rejects [of 0 c]
  have d: "intentionalDisconnect d" "pendingRequests d = []"
    "settlements (effects d) = settlements (effects inFlight)
       @ [PromiseReject 2 (JError (JStr ''Connection closed'')),
          PromiseReject 3 (JError (JStr ''Connection closed''))]"
    "timers d = [\<lparr>handle = 3, due = 1000, action = Reconnect\<rparr>]"
    using g by (simp_all add: d_def c i)
  have d': "ws d = None" "connectionPromise d = None" "nextPromise d = 4" "nextSocket d = 1"
    "clock d = 0" "sockets d = [(0, \<lparr>readyState = CLOSED, connectReject = 0\<rparr>)]"
    "url d = ''ws://localhost:8080/ws''"
    by (simp_all add: d_def disconnect_def Let_def c' wsClose_def eff_def fold_rejectPending)
  have a: "ws (advance noThrow 1000 d) = Some 1"
    "map_of (sockets (advance noThrow 1000 d)) 1 =
       Some \<lparr>readyState = CONNECTING, connectReject = 4\<rparr>"
    by (simp_all add: advance_def Let_def d d' fire_def connect_def isConnected_def
        newPromise_def noThrow_def)
  show ?thesis
    using c d a unfolding d_def c_def by simp
qed

subsection \<open>Invariants of a run\<close>

lemma invariant_same:
  assumes "invariant s" and "set (timers s') \<subseteq> set (timers s)"
    and "nextHandle s' = nextHandle s" and "eventBuffer s' = eventBuffer s"
    and "wildcardListeners s' = wildcardListeners s"
  shows "invariant s'"
  using assms by (auto simp: invariant_def)

lemma invariant_connect: "invariant s \<Longrightarrow> invariant (snd (connect W s))"
  by (rule invariant_same) (simp_all add: connect_keeps)

lemma disconnect_more:
  "nextHandle (disconnect s) = nextHandle s"
  "set (timers (disconnect s)) \<subseteq> set (timers s)"
  using wsClose_eq [of "the (ws s)" "s\<lparr>intentionalDisconnect := True, authenticated := False\<rparr>"]
  by (cases "ws s"; auto simp: disconnect_def Let_def fold_rejectPending)+

lemma invariant_disconnect: "invariant s \<Longrightarrow> invariant (disconnect s)"
  using disconnect_more [of s]
  by (auto simp: invariant_def disconnect_fields)

lemma invariant_call: "invariant s \<Longrightarrow> invariant (snd (call rid m p s))"
proof (cases "wsOpen s")
  case None
  assume "invariant s"
  with None show ?thesis by (simp add: call_def)
next
  case (Some k)
  assume "invariant s"
  then show ?thesis
    by (auto simp: call_open [OF Some] invariant_def less_Suc_eq)
qed

lemma invariant_on: "invariant s \<Longrightarrow> invariant (on e c s)"
proof (cases "e = ''*''")
  case True
  assume "invariant s"
  with True show ?thesis
    by (simp add: on_wildcard invariant_def distinct_Set_add)
next
  case False
  assume "invariant s"
  with False show ?thesis
    by (simp add: on_def Let_def invariant_def split: option.splits)
qed

lemma invariant_off: "invariant s \<Longrightarrow> invariant (off e c s)"
  by (auto simp: off_def invariant_def Set_delete_def split: option.splits)

lemma invariant_emitEvent: "invariant s \<Longrightarrow> invariant (emitEvent e d s)"
  by (simp add: invariant_def emitEvent_eq length_bufferAfter)

lemma handleMessage_shape:
  obtains (failed) "handleMessage P d s = eff parseFailed s"
  | (event) m where "handleMessage P d s = emitEvent (field m ''event'') (field m ''data'') s"
  | (dropped) "handleMessage P d s = s"
  | (settled) m k p where "handleMessage P d s =
       s\<lparr>timers := filter (\<lambda>t. handle t \<noteq> timeout p) (timers s),
         pendingRequests := Map_delete k (pendingRequests s),
         effects := effects s @ [settlement m p]\<rparr>"
proof (cases "P d")
  case None
  then show ?thesis by (simp add: handleMessage_unparseable failed)
next
  case (Some m)
  consider "m = JNull \<or> m = JUndefined" | "isEventFrame m"
    | "m \<noteq> JNull" "m \<noteq> JUndefined" "\<not> isEventFrame m"
    by blast
  then show ?thesis
  proof cases
    case 1
    with Some show ?thesis by (simp add: handleMessage_null failed)
  next
    case 2
    with Some show ?thesis by (simp add: handleMessage_event event)
  next
    case 3
    show ?thesis
    proof (cases "pendingGet (field m ''id'') s")
      case None
      with Some 3 show ?thesis by (simp add: handleMessage_dropped dropped)
    next
      case (Some kp)
      obtain k p where "kp = (k, p)" by (cases kp)
      with Some have i: "field m ''id'' = JStr k" and p: "map_of (pendingRequests s) k = Some p"
        by (simp_all add: pendingGet_Some)
      show ?thesis
      proof (cases "k = []")
        case True
        with i 3 \<open>P d = Some m\<close> show ?thesis by (simp add: handleMessage_dropped dropped)
      next
        case False
        with i 3 have "isResponse m k" by (simp add: isResponse_def)
        from handleMessage_response [of P d m k s p, OF \<open>P d = Some m\<close> this p]
        show ?thesis by (rule settled)
      qed
    qed
  qed
qed

lemma invariant_handleMessage: "invariant s \<Longrightarrow> invariant (handleMessage P d s)"
proof -
  assume i: "invariant s"
  show ?thesis
  proof (cases P d s rule: handleMessage_shape)
    case failed
    with i show ?thesis by (simp add: invariant_def eff_def)
  next
    case (event m)
    with i show ?thesis by (simp add: invariant_emitEvent)
  next
    case dropped
    with i show ?thesis by simp
  next
    case (settled m k p)
    with i show ?thesis by (auto simp: invariant_def)
  qed
qed

lemma invariant_settleAuth: "invariant s \<Longrightarrow> invariant (settleAuth h out s)"
  by (rule invariant_same) (simp_all add: settleAuth_keeps)

lemma settleAuth_upd:
  "invariant (settleAuth h out (s\<lparr>handshakes := hs\<rparr>)) = invariant (settleAuth h out s)"
  by (simp add: invariant_def settleAuth_keeps)

lemma invariant_handleAuthResponse:
  "invariant s \<Longrightarrow> invariant (handleAuthResponse P h d s)"
proof -
  assume i: "invariant s"
  have c: "invariant (clearTimeout x s)" for x
    using i by (auto simp: invariant_def clearTimeout_def)
  have "invariant (settleAuth h out (clearTimeout x s))"
    and "invariant (settleAuth h out (clearTimeout x s\<lparr>handshakes := hs\<rparr>))" for out x hs
    using invariant_settleAuth [OF c]
      invariant_same [of "clearTimeout x s" "clearTimeout x s\<lparr>handshakes := hs\<rparr>", OF c,
        THEN invariant_settleAuth]
    by simp_all
  with i show ?thesis
    by (simp add: handleAuthResponse_def Let_def split: option.splits sum.splits)
qed

lemma fold_invariant:
  assumes "\<And>x st. invariant st \<Longrightarrow> invariant (g x st)" and "invariant s"
  shows "invariant (fold g xs s)"
  using assms(2) by (induction xs arbitrary: s) (simp_all add: assms(1))

lemma invariant_ws_message: "invariant s \<Longrightarrow> invariant (ws_message P k d s)"
  by (simp add: ws_message_def fold_invariant invariant_handleMessage
      invariant_handleAuthResponse split: option.splits)

lemma invariant_ws_error: "invariant s \<Longrightarrow> invariant (ws_error k s)"
  by (auto simp: ws_error_def invariant_def onerror_keeps split: option.splits)

lemma nextHandle_onclose:
  "nextHandle (onclose s) =
     (if \<not> intentionalDisconnect s \<and> reconnectAttempts s < maxReconnectAttempts s
      then Suc (nextHandle s) else nextHandle s)"
  by (simp add: onclose_eq Let_def emitEvent_keeps eff_def)

lemma invariant_onclose: "invariant s \<Longrightarrow> invariant (onclose s)"
  by (auto simp: invariant_def timers_onclose nextHandle_onclose onclose_keeps less_Suc_eq)

lemma invariant_ws_close: "invariant s \<Longrightarrow> invariant (ws_close k s)"
proof -
  assume i: "invariant s"
  have "invariant (s\<lparr>sockets := so\<rparr>)" for so
    using i by (simp add: invariant_def)
  then show ?thesis
    using i by (simp add: ws_close_def invariant_onclose split: option.splits)
qed

lemma invariant_authenticate: "invariant s \<Longrightarrow> invariant (snd (authenticate tok rid s))"
  by (auto simp: authenticate_def Let_def eff_def newPromise_def setTimeout_def wsSend_def
      invariant_def less_Suc_eq split: option.splits sum.splits)

lemma invariant_onopen_catch: "invariant s \<Longrightarrow> invariant (onopen_catch rej e s)"
  by (rule invariant_same) (simp_all add: onopen_catch_keeps)

lemma invariant_onopen: "invariant s \<Longrightarrow> invariant (onopen tok rid rej s)"
proof -
  assume i: "invariant s"
  let ?s2 = "(eff (Console ''[Gateway] WebSocket connected'') s)
               \<lparr>reconnectAttempts := 0, reconnectDelay := 1000\<rparr>"
  have "invariant ?s2"
    using i by (simp add: invariant_def eff_def)
  then have a: "invariant (snd (authenticate tok rid ?s2))"
    by (rule invariant_authenticate)
  obtain r s3 where r: "authenticate tok rid ?s2 = (r, s3)"
    by (cases "authenticate tok rid ?s2")
  with a have 3: "invariant s3" by simp
  then have "invariant (s3\<lparr>awaiting := aw\<rparr>)" for aw
    by (simp add: invariant_def)
  with 3 r show ?thesis
    by (simp add: onopen_def Let_def invariant_onopen_catch split: sum.splits)
qed

lemma invariant_ws_open: "invariant s \<Longrightarrow> invariant (ws_open tok rid k s)"
proof -
  assume i: "invariant s"
  have "invariant (s\<lparr>sockets := so\<rparr>)" for so
    using i by (simp add: invariant_def)
  then show ?thesis
    using i by (simp add: ws_open_def invariant_onopen split: option.splits)
qed

lemma fire_more:
  "eventBuffer (fire W t s) = eventBuffer s"
  "wildcardListeners (fire W t s) = wildcardListeners s"
  by (cases "action t"; simp add: fire_def Let_def connect_keeps settleAuth_keeps eff_def)+

lemma invariant_fire: "invariant s \<Longrightarrow> invariant (fire W t s)"
  by (rule invariant_same) (auto simp: fire_timers fire_nextHandle fire_more)

lemma invariant_advance: "invariant s \<Longrightarrow> invariant (advance W ms s)"
proof -
  assume "invariant s"
  then have "invariant (fold (fire W) ts s)" for ts
    by (rule fold_invariant [rotated]) (rule invariant_fire)
  then show ?thesis
    by (simp add: advance_def Let_def invariant_def)
qed

lemma invariant_step: "invariant s \<Longrightarrow> invariant (step P W i s)"
  by (cases i)
    (simp_all add: invariant_connect invariant_disconnect invariant_call invariant_on
      invariant_off invariant_ws_open invariant_ws_message invariant_ws_error
      invariant_ws_close invariant_advance)

lemma invariant_run: "invariant s \<Longrightarrow> invariant (run P W inputs s)"
  unfolding run_def by (induction inputs arbitrary: s) (simp_all add: invariant_step)

lemma invariant_constructor: "invariant (constructor u)"
  by (simp add: invariant_def constructor_def)

text \<open>
  The hypotheses of C2, C3 and C4 on the state hold after every run from the
  constructor.
\<close>

lemma reachable_invariant:
  "(\<forall>t \<in> set (timers (run P W inputs (constructor u))).
       handle t < nextHandle (run P W inputs (constructor u)))
   \<and> length (eventBuffer (run P W inputs (constructor u))) \<le> EVENT_RING_BUFFER_SIZE
   \<and> distinct (wildcardListeners (run P W inputs (constructor u)))"
  using invariant_run [OF invariant_constructor, of P W inputs u]
  by (simp add: invariant_def)

end
